theory Spec2Isabelle
  imports Main
begin

section \<open>Strings and paths\<close>

text \<open>
  JavaScript strings are modelled as \<open>string\<close> (a list of 8-bit characters, read as
  the UTF-8 bytes of the text).  \<open>startsWith\<close> and \<open>endsWith\<close> are the methods of
  \<^verbatim>\<open>String.prototype\<close> used by \<^verbatim>\<open>src/index.ts\<close>.
\<close>

definition startsWith :: "string \<Rightarrow> string \<Rightarrow> bool" where
  "startsWith s t = (take (length t) s = t)"

definition endsWith :: "string \<Rightarrow> string \<Rightarrow> bool" where
  "endsWith s t = (length t \<le> length s \<and> drop (length s - length t) s = t)"

text \<open>
  The functions \<^verbatim>\<open>resolve\<close> and \<^verbatim>\<open>dirname\<close> are imported from Node's \<^verbatim>\<open>path\<close>
  module (POSIX flavour).  They are modelled after the algorithm of that module:
  \<^verbatim>\<open>resolve\<close> joins its arguments from the last absolute one on (starting from the
  working directory, an absolute path), splits the result at \<^verbatim>\<open>/\<close>, drops empty and
  \<^verbatim>\<open>.\<close> segments, lets \<^verbatim>\<open>..\<close> remove the segment before it, and prints the remaining
  segments after a leading \<^verbatim>\<open>/\<close>.
\<close>

fun split_slash :: "string \<Rightarrow> string list" where
  "split_slash [] = [[]]"
| "split_slash (c # cs) =
     (if c = CHR ''/'' then [] # split_slash cs
      else (case split_slash cs of
              [] \<Rightarrow> [[c]]
            | s # ss \<Rightarrow> (c # s) # ss))"

fun join_slash :: "string list \<Rightarrow> string" where
  "join_slash [] = []"
| "join_slash [s] = s"
| "join_slash (s # t # ss) = s @ CHR ''/'' # join_slash (t # ss)"

definition normalize_step :: "string list \<Rightarrow> string \<Rightarrow> string list" where
  "normalize_step stack seg =
     (if seg = [] \<or> seg = ''.'' then stack
      else if seg = ''..'' then butlast stack
      else stack @ [seg])"

definition normalizeString :: "string \<Rightarrow> string list" where
  "normalizeString p = foldl normalize_step [] (split_slash p)"

definition resolve_step :: "string \<Rightarrow> string \<Rightarrow> string" where
  "resolve_step acc p =
     (if p = [] then acc
      else if hd p = CHR ''/'' then p
      else acc @ CHR ''/'' # p)"

definition resolve :: "string \<Rightarrow> string list \<Rightarrow> string" where
  "resolve cwd args = CHR ''/'' # join_slash (normalizeString (foldl resolve_step cwd args))"

text \<open>
  \<^verbatim>\<open>dirname\<close>: scanning from the end down to index 1, trailing slashes are skipped,
  then the last segment; the first slash met after it ends the result.  With no such
  slash the result is \<^verbatim>\<open>/\<close> for a rooted path and \<^verbatim>\<open>.\<close> otherwise.  In particular
  \<^verbatim>\<open>dirname('/') = '/'\<close>.
\<close>

definition dirname :: "string \<Rightarrow> string" where
  "dirname p =
     (if p = [] then ''.''
      else
        let hasRoot = (hd p = CHR ''/'');
            r = dropWhile (\<lambda>c. c \<noteq> CHR ''/'') (dropWhile (\<lambda>c. c = CHR ''/'') (rev (tl p)))
        in if r = [] then (if hasRoot then ''/'' else ''.'')
           else if hasRoot \<and> length r = 1 then ''//''
           else take (length r) p)"

section \<open>The file system and the external collaborators\<close>

datatype node = Dir | File string

text \<open>
  A manifest field as \<^verbatim>\<open>require(packageJSONPath).module\<close> reads it: absent (or any
  falsy value), a string, or a truthy value that is not a string.
\<close>

datatype field = Absent | Str string | NonString

text \<open>
  The environment of one build: the file system (keyed by normalised absolute paths),
  the working directory, and the services the program calls but does not implement:
  \<^item> \<open>importSpecifiers\<close>: for a file's content, the source text
    (\<^verbatim>\<open>moduleSpecifier.getText(source)\<close>) of the module specifier of each top-level
    \<^verbatim>\<open>ImportDeclaration\<close>, in source order (\<^verbatim>\<open>ts.createSourceFile\<close> and
    \<^verbatim>\<open>forEachChild\<close>);
  \<^item> \<open>transpileModule\<close>: \<^verbatim>\<open>ts.transpileModule(content, ...).outputText\<close>;
  \<^item> \<open>getPreEmitDiagnostics\<close>: the messages of the type check of the entry file;
  \<^item> \<open>manifest\<close>: what \<^verbatim>\<open>require\<close> makes of the content of a \<^verbatim>\<open>package.json\<close>:
    \<open>None\<close> when it throws, otherwise the \<^verbatim>\<open>module\<close> and \<^verbatim>\<open>main\<close> fields.
\<close>

record env =
  fs :: "string \<Rightarrow> node option"
  cwd :: string
  importSpecifiers :: "string \<Rightarrow> string list"
  transpileModule :: "string \<Rightarrow> string"
  getPreEmitDiagnostics :: "string \<Rightarrow> string list"
  manifest :: "string \<Rightarrow> (field \<times> field) option"

definition isFile :: "env \<Rightarrow> string \<Rightarrow> bool" where
  "isFile e path = (case fs e path of Some (File c) \<Rightarrow> True | _ \<Rightarrow> False)"

definition isDir :: "env \<Rightarrow> string \<Rightarrow> bool" where
  "isDir e path = (case fs e path of Some Dir \<Rightarrow> True | _ \<Rightarrow> False)"

section \<open>Errors\<close>

text \<open>
  Every way the program stops without a bundle.  \<open>ExitError msg\<close> is a call of
  \<^verbatim>\<open>error(msg)\<close> (the message goes to the error stream, then \<^verbatim>\<open>process.exit(1)\<close>);
  the others are exceptions nobody catches:
  \<^item> \<open>SpecifierError\<close>: \<^verbatim>\<open>JSON.parse(moduleSpecifier)\<close> throws, or yields a value that
    is not a string, on which \<^verbatim>\<open>dep.startsWith\<close> throws;
  \<^item> \<open>IOError file\<close>: \<^verbatim>\<open>readFile(file)\<close> throws;
  \<^item> \<open>ManifestError\<close>: \<^verbatim>\<open>require(packageJSONPath)\<close> throws, or the field is not a
    string and \<^verbatim>\<open>resolve\<close> throws;
  \<^item> \<open>WriteError\<close>: \<^verbatim>\<open>writeFile\<close> throws.
\<close>

datatype error =
    ExitError string
  | SpecifierError string
  | IOError string
  | ManifestError string
  | WriteError

definition cannotFind :: "string \<Rightarrow> error" where
  "cannotFind path = ExitError (''Cannot find module '' @ [CHR 0x27] @ path @ [CHR 0x27] @ ''.'')"

section \<open>Path resolution\<close>

definition localModulePath :: "env \<Rightarrow> string \<Rightarrow> string option \<Rightarrow> error + string" where
  "localModulePath e path from =
     (let absPath = (case from of
                       None \<Rightarrow> resolve (cwd e) [path]
                     | Some f \<Rightarrow> if f \<noteq> [] then resolve (cwd e) [dirname f, path]
                                else resolve (cwd e) [path]);
          tsPath = (if endsWith absPath ''.ts'' then absPath else absPath @ ''.ts'');
          indexPath = resolve (cwd e) [absPath, ''index.ts'']
      in if isFile e tsPath then Inr tsPath
         else if isDir e absPath \<and> isFile e indexPath then Inr indexPath
         else Inl (cannotFind path))"


text \<open>
  \<^verbatim>\<open>JSON.parse\<close> on the text of a module specifier, as far as the program can use its
  result: the value must be a string (\<^verbatim>\<open>dep.startsWith\<close> is called on it next), so the
  text must be one JSON string, possibly between JSON white space.  A JSON string stands
  between double quotes, holds no raw control character, and knows the escapes
  \<^verbatim>\<open>\" \\ \/ \b \f \n \r \t \uXXXX\<close>.  \<open>None\<close> stands for the exception (a
  \<^verbatim>\<open>SyntaxError\<close> of \<^verbatim>\<open>JSON.parse\<close>, or the \<^verbatim>\<open>TypeError\<close> of \<^verbatim>\<open>startsWith\<close> on a
  value that is not a string).  What a \<^verbatim>\<open>\u\<close> escape stands for is kept as its UTF-8
  bytes: a high surrogate followed by an escaped low surrogate as the four bytes of the
  code point the pair encodes, any other code unit as the bytes of its own value.
\<close>

definition json_ws :: "char \<Rightarrow> bool" where
  "json_ws c = (c = CHR 0x20 \<or> c = CHR 0x09 \<or> c = CHR 0x0A \<or> c = CHR 0x0D)"

definition hex_val :: "char \<Rightarrow> nat option" where
  "hex_val c =
     (let n = (of_char c :: nat)
      in if 48 \<le> n \<and> n \<le> 57 then Some (n - 48)
         else if 65 \<le> n \<and> n \<le> 70 then Some (n - 55)
         else if 97 \<le> n \<and> n \<le> 102 then Some (n - 87)
         else None)"

fun hex_number :: "nat \<Rightarrow> string \<Rightarrow> nat option" where
  "hex_number acc [] = Some acc"
| "hex_number acc (c # cs) =
     (case hex_val c of None \<Rightarrow> None | Some d \<Rightarrow> hex_number (16 * acc + d) cs)"

definition code_unit :: "nat \<Rightarrow> string" where
  "code_unit n =
     (if n < 0x80 then [char_of n]
      else if n < 0x800 then [char_of (0xC0 + n div 64), char_of (0x80 + n mod 64)]
      else [char_of (0xE0 + n div 4096), char_of (0x80 + (n div 64) mod 64),
            char_of (0x80 + n mod 64)])"

definition code_point :: "nat \<Rightarrow> string" where
  "code_point n =
     [char_of (0xF0 + n div 262144), char_of (0x80 + (n div 4096) mod 64),
      char_of (0x80 + (n div 64) mod 64), char_of (0x80 + n mod 64)]"

text \<open>The low surrogate that an escape at the head of the text stands for, if it is one.\<close>

definition low_surrogate :: "string \<Rightarrow> nat option" where
  "low_surrogate s =
     (case s of
        a # b # rest \<Rightarrow>
          if a = CHR 0x5C \<and> b = CHR ''u'' \<and> 4 \<le> length rest then
            (case hex_number 0 (take 4 rest) of
               None \<Rightarrow> None
             | Some m \<Rightarrow> if 0xDC00 \<le> m \<and> m < 0xE000 then Some m else None)
          else None
      | _ \<Rightarrow> None)"

definition simple_escape :: "char \<Rightarrow> char option" where
  "simple_escape c =
     (if c = CHR 0x22 then Some (CHR 0x22)
      else if c = CHR 0x5C then Some (CHR 0x5C)
      else if c = CHR ''/'' then Some (CHR ''/'')
      else if c = CHR ''b'' then Some (CHR 0x08)
      else if c = CHR ''f'' then Some (CHR 0x0C)
      else if c = CHR ''n'' then Some (CHR 0x0A)
      else if c = CHR ''r'' then Some (CHR 0x0D)
      else if c = CHR ''t'' then Some (CHR 0x09)
      else None)"

function json_string_body :: "string \<Rightarrow> string option" where
  "json_string_body [] = None"
| "json_string_body (c # cs) =
     (if c = CHR 0x22 then (if list_all json_ws cs then Some [] else None)
      else if c = CHR 0x5C then
        (case cs of
           [] \<Rightarrow> None
         | x # r \<Rightarrow>
             if x = CHR ''u'' then
               (if length r < 4 then None
                else (case hex_number 0 (take 4 r) of
                        None \<Rightarrow> None
                      | Some n \<Rightarrow>
                          (case (if 0xD800 \<le> n \<and> n < 0xDC00 then low_surrogate (drop 4 r)
                                 else None) of
                             Some m \<Rightarrow>
                               map_option
                                 ((@) (code_point (0x10000 + (n - 0xD800) * 0x400 + (m - 0xDC00))))
                                 (json_string_body (drop 10 r))
                           | None \<Rightarrow>
                               map_option ((@) (code_unit n)) (json_string_body (drop 4 r)))))
             else (case simple_escape x of
                     None \<Rightarrow> None
                   | Some y \<Rightarrow> map_option ((#) y) (json_string_body r)))
      else if (of_char c :: nat) < 0x20 then None
      else map_option ((#) c) (json_string_body cs))"
  by pat_completeness auto
termination
  by (relation "measure length") auto

definition JSON_parse :: "string \<Rightarrow> string option" where
  "JSON_parse text =
     (case dropWhile json_ws text of
        [] \<Rightarrow> None
      | c # cs \<Rightarrow> if c = CHR 0x22 then json_string_body cs else None)"

text \<open>
  \<^verbatim>\<open>npmModulePath\<close>.  Its \<^verbatim>\<open>while\<close> loop has no bound in the source, so it is a partial
  function: \<open>None\<close> is the loop that never ends.
\<close>

partial_function (option) findProjRoot :: "env \<Rightarrow> string \<Rightarrow> string option" where
  "findProjRoot e projRoot =
     (if \<not> isDir e (resolve (cwd e) [projRoot, ''node_modules''])
      then findProjRoot e (dirname projRoot)
      else Some projRoot)"

declare findProjRoot.simps [code]

definition truthy :: "field \<Rightarrow> bool" where
  "truthy v = (case v of Absent \<Rightarrow> False | Str s \<Rightarrow> s \<noteq> [] | NonString \<Rightarrow> True)"

definition packageEntry :: "env \<Rightarrow> string \<Rightarrow> string \<Rightarrow> error + string" where
  "packageEntry e pkg projRoot =
     (let pkgRoot = resolve (cwd e) [projRoot, ''node_modules'', pkg];
          jsPath = pkgRoot @ ''.js'';
          packageJSONPath = resolve (cwd e) [pkgRoot, ''package.json''];
          indexPath = resolve (cwd e) [pkgRoot, ''index.js''];
          fallback = (if isFile e indexPath then Inr indexPath else Inl (cannotFind pkg))
      in if isFile e jsPath then Inr jsPath
         else (case fs e packageJSONPath of
                 Some (File content) \<Rightarrow>
                   (case manifest e content of
                      None \<Rightarrow> Inl (ManifestError packageJSONPath)
                    | Some (module, main0) \<Rightarrow>
                        let main = (if truthy module then module else main0)
                        in if truthy main then
                             (case main of
                                Str m \<Rightarrow> Inr (resolve (cwd e) [pkgRoot, m])
                              | _ \<Rightarrow> Inl (ManifestError packageJSONPath))
                           else fallback)
               | _ \<Rightarrow> fallback))"

definition npmModulePath :: "env \<Rightarrow> string \<Rightarrow> string \<Rightarrow> (error + string) option" where
  "npmModulePath e pkg from =
     (case findProjRoot e (dirname from) of
        None \<Rightarrow> None
      | Some projRoot \<Rightarrow> Some (packageEntry e pkg projRoot))"


section \<open>Compiling modules\<close>

text \<open>
  A \<^verbatim>\<open>Module\<close>.  Its \<^verbatim>\<open>id\<close> is \<^verbatim>\<open>moduleToId.get(file)!\<close>: the \<^verbatim>\<open>!\<close> is erased at run
  time, so the field holds \<^verbatim>\<open>undefined\<close> (\<open>None\<close>) for a file that is not registered.
  \<^verbatim>\<open>deps\<close> is a JavaScript \<^verbatim>\<open>Map\<close>, which keeps its keys in insertion order: an
  association list, with \<open>map_set\<close> for \<^verbatim>\<open>Map.prototype.set\<close>.
\<close>

record Module =
  id_m :: "nat option"
  file_m :: string
  deps :: "(string \<times> nat) list"
  transpiled :: string

fun map_set :: "('k \<times> 'v) list \<Rightarrow> 'k \<Rightarrow> 'v \<Rightarrow> ('k \<times> 'v) list" where
  "map_set [] k v = [(k, v)]"
| "map_set ((k', v') # m) k v =
     (if k' = k then (k, v) # m else (k', v') # map_set m k v)"

text \<open>The global variables of the build: the counter, the registry, the worklist, the result.\<close>

record bstate =
  moduleId :: nat
  moduleToId :: "string \<Rightarrow> nat option"
  files :: "string list"
  modules :: "Module list"

definition initState :: "string \<Rightarrow> bstate" where
  "initState entryFile =
     \<lparr>moduleId = 0, moduleToId = [entryFile \<mapsto> 0], files = [entryFile], modules = []\<rparr>"

text \<open>Lines 120 to 125: look the path up, give a new path the next identity and queue it.\<close>

definition register :: "string \<Rightarrow> bstate \<Rightarrow> nat \<times> bstate" where
  "register depPath s =
     (case moduleToId s depPath of
        Some depID \<Rightarrow> (depID, s)
      | None \<Rightarrow>
          (let depID = moduleId s + 1
           in (depID, s\<lparr>moduleId := depID,
                        moduleToId := (moduleToId s)(depPath \<mapsto> depID),
                        files := files s @ [depPath]\<rparr>)))"

definition resolveDep :: "env \<Rightarrow> string \<Rightarrow> string \<Rightarrow> (error + string) option" where
  "resolveDep e dep file0 =
     (if startsWith dep ''.'' then Some (localModulePath e dep (Some file0))
      else npmModulePath e dep file0)"

text \<open>
  The callback of \<^verbatim>\<open>source.forEachChild\<close>, run over the import declarations of the file
  in source order; the first failure ends the build.
\<close>

fun forEachImport ::
  "env \<Rightarrow> string \<Rightarrow> string list \<Rightarrow> (string \<times> nat) list \<Rightarrow> bstate
     \<Rightarrow> (error + (string \<times> nat) list \<times> bstate) option" where
  "forEachImport e file0 [] ds s = Some (Inr (ds, s))"
| "forEachImport e file0 (moduleSpecifier # rest) ds s =
     (case JSON_parse moduleSpecifier of
        None \<Rightarrow> Some (Inl (SpecifierError moduleSpecifier))
      | Some dep \<Rightarrow>
          (case resolveDep e dep file0 of
             None \<Rightarrow> None
           | Some (Inl err) \<Rightarrow> Some (Inl err)
           | Some (Inr depPath) \<Rightarrow>
               (case register depPath s of
                  (depID, s') \<Rightarrow> forEachImport e file0 rest (map_set ds dep depID) s')))"

definition compile :: "env \<Rightarrow> string \<Rightarrow> bstate \<Rightarrow> (error + Module \<times> bstate) option" where
  "compile e file0 s =
     (let ident = moduleToId s file0
      in case fs e file0 of
           Some (File content) \<Rightarrow>
             (case forEachImport e file0 (importSpecifiers e content) [] s of
                None \<Rightarrow> None
              | Some (Inl err) \<Rightarrow> Some (Inl err)
              | Some (Inr (ds, s')) \<Rightarrow>
                  Some (Inr (\<lparr>id_m = ident, file_m = file0, deps = ds,
                              transpiled = transpileModule e content\<rparr>, s')))
         | _ \<Rightarrow> Some (Inl (IOError file0)))"

text \<open>
  The loop \<^verbatim>\<open>while ((file = files.shift())) modules.push(compile(file))\<close>.  It ends when
  the worklist is empty, and also when the path taken from it is falsy (the empty
  string).
\<close>

partial_function (option) buildLoop :: "env \<Rightarrow> bstate \<Rightarrow> (error + bstate) option" where
  "buildLoop e s =
     (case files s of
        [] \<Rightarrow> Some (Inr s)
      | file0 # rest \<Rightarrow>
          if file0 = [] then Some (Inr (s\<lparr>files := rest\<rparr>))
          else (case compile e file0 (s\<lparr>files := rest\<rparr>) of
                  None \<Rightarrow> None
                | Some (Inl err) \<Rightarrow> Some (Inl err)
                | Some (Inr (m, s')) \<Rightarrow> buildLoop e (s'\<lparr>modules := modules s' @ [m]\<rparr>)))"

declare buildLoop.simps [code]

definition build :: "env \<Rightarrow> string \<Rightarrow> (error + bstate) option" where
  "build e entryFile = buildLoop e (initState entryFile)"

text \<open>The import edges of the file system: what the imports of a readable file resolve to.\<close>

definition importEdges :: "env \<Rightarrow> (string \<times> string) set" where
  "importEdges e =
     {(f, g). \<exists>content t dep. fs e f = Some (File content) \<and> t \<in> set (importSpecifiers e content)
                \<and> JSON_parse t = Some dep \<and> resolveDep e dep f = Some (Inr g)}"

section \<open>Code generation\<close>

text \<open>Template literals print a number in decimal and \<^verbatim>\<open>undefined\<close> by its name.\<close>

definition digit_char :: "nat \<Rightarrow> char" where
  "digit_char d = char_of (48 + d)"

function show_nat :: "nat \<Rightarrow> string" where
  "show_nat n = (if n < 10 then [digit_char n] else show_nat (n div 10) @ [digit_char (n mod 10)])"
  by pat_completeness auto
termination
  by (relation "measure (\<lambda>n. n)") auto

declare show_nat.simps [simp del]

definition show_id :: "nat option \<Rightarrow> string" where
  "show_id ident = (case ident of None \<Rightarrow> ''undefined'' | Some n \<Rightarrow> show_nat n)"

text \<open>
  \<^verbatim>\<open>JSON.stringify\<close> of a string: between double quotes, with the quote, the backslash
  and the control characters escaped.
\<close>

definition hex_digit :: "nat \<Rightarrow> char" where
  "hex_digit d = (if d < 10 then char_of (48 + d) else char_of (87 + d))"

definition json_escape :: "char \<Rightarrow> string" where
  "json_escape c =
     (if c = CHR 0x22 then [CHR 0x5C, CHR 0x22]
      else if c = CHR 0x5C then [CHR 0x5C, CHR 0x5C]
      else if c = CHR 0x08 then [CHR 0x5C, CHR ''b'']
      else if c = CHR 0x0C then [CHR 0x5C, CHR ''f'']
      else if c = CHR 0x0A then [CHR 0x5C, CHR ''n'']
      else if c = CHR 0x0D then [CHR 0x5C, CHR ''r'']
      else if c = CHR 0x09 then [CHR 0x5C, CHR ''t'']
      else if (of_char c :: nat) < 0x20 then
        [CHR 0x5C, CHR ''u'', CHR ''0'', CHR ''0'',
         hex_digit ((of_char c :: nat) div 16), hex_digit ((of_char c :: nat) mod 16)]
      else [c])"

definition JSON_stringify :: "string \<Rightarrow> string" where
  "JSON_stringify s = CHR 0x22 # concat (map json_escape s) @ [CHR 0x22]"

text \<open>The runtime loader, the second string that \<^verbatim>\<open>generate\<close> yields, line by line.\<close>

definition loader :: string where
  "loader = concat (map (\<lambda>line. line @ [CHR 0x0A])
     ['''',
      ''var executedModules = {};'',
      ''(function executeModule(id) {'',
      ''  if (executedModules[id]) return executedModules[id];'',
      '''',
      ''  var mod = modules[id];'',
      ''  var localRequire = function (path) {'',
      ''    return executeModule(mod[1][path]);'',
      ''  };'',
      ''  var module = { exports: {} };'',
      ''  executedModules[id] = module.exports;'',
      ''  mod[0](localRequire, module, module.exports);'',
      ''  return module.exports;'',
      ''})(0);''])"

definition generateDep :: "string \<times> nat \<Rightarrow> string" where
  "generateDep kv = (case kv of (key, val) \<Rightarrow> JSON_stringify key @ '': '' @ show_nat val @ '','')"

definition generateModule :: "Module \<Rightarrow> string list" where
  "generateModule m =
     [show_id (id_m m) @ '': ['',
      ''function (require, module, exports) {'',
      transpiled m,
      ''}, {''] @
     map generateDep (deps m) @
     [''}'',
      ''],'']"

definition generate :: "Module list \<Rightarrow> string list" where
  "generate ms =
     ['';(function (modules) {'', loader, ''})({''] @
     concat (map generateModule ms) @
     [''})'']"

definition bundleText :: "Module list \<Rightarrow> string" where
  "bundleText ms = concat (map (\<lambda>code. code @ [CHR 0x0A]) (generate ms))"

section \<open>The program\<close>

text \<open>The command line: \<^verbatim>\<open>option.input\<close> and \<^verbatim>\<open>option.output\<close>, \<open>None\<close> when undefined.\<close>

record Options =
  input_o :: "string option"
  output_o :: "string option"

fun parseArgs :: "string list \<Rightarrow> nat \<Rightarrow> Options \<Rightarrow> Options" where
  "parseArgs [] i opt = opt"
| "parseArgs (v # rest) i opt =
     parseArgs rest (i + 1)
       (let opt1 = (if i = 2 then opt\<lparr>input_o := Some v\<rparr> else opt)
        in if v = ''-o'' then opt1\<lparr>output_o := (case rest of [] \<Rightarrow> None | x # xs \<Rightarrow> Some x)\<rparr>
           else opt1)"

text \<open>
  \<^verbatim>\<open>writeFile(option.output, result)\<close>: it throws for an undefined path, for a path that
  is a directory and for a path whose directory does not exist; otherwise the file
  holds the text afterwards.
\<close>

definition writeFile :: "env \<Rightarrow> string option \<Rightarrow> string \<Rightarrow> error + (string \<Rightarrow> node option)" where
  "writeFile e out text =
     (case out of
        None \<Rightarrow> Inl WriteError
      | Some path \<Rightarrow>
          (let p = resolve (cwd e) [path]
           in if isDir e p \<or> \<not> isDir e (dirname p) then Inl WriteError
              else Inr ((fs e)(p \<mapsto> File text))))"

text \<open>
  What a run leaves behind: the exit code of the process, the error that stopped it (if
  any), and the file system afterwards.
\<close>

record outcome =
  exitCode :: nat
  failure :: "error option"
  fsAfter :: "string \<Rightarrow> node option"

definition exitWith :: "env \<Rightarrow> error \<Rightarrow> outcome" where
  "exitWith e err = \<lparr>exitCode = 1, failure = Some err, fsAfter = fs e\<rparr>"

text \<open>The top-level statements of \<^verbatim>\<open>src/index.ts\<close> in their order; \<open>None\<close> is a run that never ends.\<close>

definition main :: "env \<Rightarrow> string list \<Rightarrow> outcome option" where
  "main e argv =
     (let option = parseArgs argv 0 \<lparr>input_o = None, output_o = None\<rparr>
      in case input_o option of
           None \<Rightarrow> Some (exitWith e (ExitError ''No input is provided.''))
         | Some inp \<Rightarrow>
             if inp = [] then Some (exitWith e (ExitError ''No input is provided.''))
             else (case localModulePath e inp None of
                     Inl err \<Rightarrow> Some (exitWith e err)
                   | Inr entryFile \<Rightarrow>
                       if getPreEmitDiagnostics e entryFile \<noteq> []
                       then Some (exitWith e (ExitError ''Type check Error.''))
                       else (case build e entryFile of
                               None \<Rightarrow> None
                             | Some (Inl err) \<Rightarrow> Some (exitWith e err)
                             | Some (Inr s) \<Rightarrow>
                                 (case writeFile e (output_o option) (bundleText (modules s)) of
                                    Inl err \<Rightarrow> Some (exitWith e err)
                                  | Inr fs' \<Rightarrow>
                                      Some \<lparr>exitCode = 0, failure = None, fsAfter = fs'\<rparr>))))"

section \<open>The generated loader at run time\<close>

text \<open>
  What a bundle does when it is loaded.  The loader only sees three things a factory
  can do: call \<^verbatim>\<open>require\<close> with a specifier, assign a new object to
  \<^verbatim>\<open>module.exports\<close>, and throw.  A factory body is therefore a finite list of these
  actions, and \<open>sem\<close> (the meaning of the transpiled text) is a parameter.  Objects are
  their addresses; \<open>nextObj\<close> is the next fresh one.  A property key of \<^verbatim>\<open>modules\<close>
  and of \<^verbatim>\<open>executedModules\<close> is an identity or \<^verbatim>\<open>undefined\<close> (\<open>None\<close>).
\<close>

datatype action = Require string | ReplaceExports | Throw

type_synonym table = "nat option \<Rightarrow> (action list \<times> (string \<times> nat) list) option"

text \<open>
  The object literal passed as \<^verbatim>\<open>modules\<close>: one property per module, a later property
  with the same key replacing an earlier one.
\<close>

definition tableOf :: "(string \<Rightarrow> action list) \<Rightarrow> Module list \<Rightarrow> table" where
  "tableOf sem ms = map_of (rev (map (\<lambda>m. (id_m m, (sem (transpiled m), deps m))) ms))"

text \<open>
  \<open>invoked\<close> lists the factories called, in order; \<open>required\<close> lists, for every
  \<^verbatim>\<open>require\<close> that returned, the requiring module, the specifier and the object
  returned.
\<close>

record rstate =
  executedModules :: "nat option \<Rightarrow> nat option"
  nextObj :: nat
  invoked :: "nat option list"
  required :: "(nat option \<times> string \<times> nat) list"

datatype completion = Normal nat | Exception

text \<open>\<^verbatim>\<open>mod[1][path]\<close>: the own property of the dependency table, \<^verbatim>\<open>undefined\<close> without one.\<close>

definition depLookup :: "(string \<times> nat) list \<Rightarrow> string \<Rightarrow> nat option" where
  "depLookup ds path = (if path = ''__proto__'' then None else map_of (rev ds) path)"

text \<open>
  \<^verbatim>\<open>executeModule\<close> and the factory it calls.  The first argument bounds the depth of
  nested calls; \<open>None\<close> means the bound was too small.  \<open>runFactory\<close> carries the
  identity of the running module, its dependency table, the actions left and the
  current value of \<^verbatim>\<open>module.exports\<close>, which is what \<^verbatim>\<open>executeModule\<close> returns at
  the end.
\<close>

fun executeModule :: "nat \<Rightarrow> table \<Rightarrow> nat option \<Rightarrow> rstate \<Rightarrow> (completion \<times> rstate) option"
  and runFactory ::
    "nat \<Rightarrow> table \<Rightarrow> nat option \<Rightarrow> (string \<times> nat) list \<Rightarrow> action list \<Rightarrow> nat \<Rightarrow> rstate
       \<Rightarrow> (completion \<times> rstate) option" where
  "executeModule 0 tab ident st = None"
| "executeModule (Suc n) tab ident st =
     (case executedModules st ident of
        Some obj \<Rightarrow> Some (Normal obj, st)
      | None \<Rightarrow>
          (let exports = nextObj st;
               st1 = st\<lparr>nextObj := exports + 1,
                        executedModules := (executedModules st)(ident \<mapsto> exports)\<rparr>
           in case tab ident of
                None \<Rightarrow> Some (Exception, st1)
              | Some (factory, ds) \<Rightarrow>
                  runFactory n tab ident ds factory exports
                    (st1\<lparr>invoked := invoked st1 @ [ident]\<rparr>)))"
| "runFactory n tab ident ds [] exports st = Some (Normal exports, st)"
| "runFactory n tab ident ds (Require path # rest) exports st =
     (case executeModule n tab (depLookup ds path) st of
        None \<Rightarrow> None
      | Some (Exception, st') \<Rightarrow> Some (Exception, st')
      | Some (Normal obj, st') \<Rightarrow>
          runFactory n tab ident ds rest exports
            (st'\<lparr>required := required st' @ [(ident, path, obj)]\<rparr>))"
| "runFactory n tab ident ds (ReplaceExports # rest) exports st =
     runFactory n tab ident ds rest (nextObj st) (st\<lparr>nextObj := nextObj st + 1\<rparr>)"
| "runFactory n tab ident ds (Throw # rest) exports st = Some (Exception, st)"

definition initRuntime :: rstate where
  "initRuntime = \<lparr>executedModules = Map.empty, nextObj = 0, invoked = [], required = []\<rparr>"

text \<open>Loading the bundle: \<^verbatim>\<open>executeModule(0)\<close> with an empty cache.\<close>

definition runBundle ::
  "(string \<Rightarrow> action list) \<Rightarrow> Module list \<Rightarrow> nat \<Rightarrow> (completion \<times> rstate) option" where
  "runBundle sem ms fuel = executeModule fuel (tableOf sem ms) (Some 0) initRuntime"

section \<open>A small project, for running the definitions\<close>

text \<open>
  A project under \<^verbatim>\<open>/p\<close>: \<^verbatim>\<open>a.ts\<close> imports \<^verbatim>\<open>./b\<close> and \<^verbatim>\<open>./c\<close>; \<^verbatim>\<open>b.ts\<close> imports
  \<^verbatim>\<open>./d\<close>, \<^verbatim>\<open>./a.ts\<close> (a cycle) and the package \<^verbatim>\<open>left\<close>; both \<^verbatim>\<open>c.ts\<close> and
  \<^verbatim>\<open>c/index.ts\<close> exist; \<^verbatim>\<open>d\<close> is a directory with an \<^verbatim>\<open>index.ts\<close> that imports the
  package \<^verbatim>\<open>pk\<close>, whose manifest names \<^verbatim>\<open>lib/main.js\<close>.  The package \<^verbatim>\<open>ghost\<close> has a
  manifest that names a file that does not exist; \<^verbatim>\<open>e.ts\<close> imports it.  \<^verbatim>\<open>q.ts\<close>
  writes its import with single quotes.  \<^verbatim>\<open>t.ts\<close> imports \<^verbatim>\<open>./types\<close>.  The content of a file is a short tag, and the
  collaborators are tables on these tags.
\<close>

definition dq :: "string \<Rightarrow> string" where
  "dq s = CHR 0x22 # s @ [CHR 0x22]"

definition sq :: "string \<Rightarrow> string" where
  "sq s = CHR 0x27 # s @ [CHR 0x27]"

definition demoFs :: "string \<Rightarrow> node option" where
  "demoFs =
     [''/p'' \<mapsto> Dir,
      ''/p/a.ts'' \<mapsto> File ''A'',
      ''/p/b.ts'' \<mapsto> File ''B'',
      ''/p/c.ts'' \<mapsto> File ''C'',
      ''/p/c'' \<mapsto> Dir,
      ''/p/c/index.ts'' \<mapsto> File ''CI'',
      ''/p/d'' \<mapsto> Dir,
      ''/p/d/index.ts'' \<mapsto> File ''D'',
      ''/p/e.ts'' \<mapsto> File ''E'',
      ''/p/q.ts'' \<mapsto> File ''Q'',
      ''/p/t.ts'' \<mapsto> File ''T'',
      ''/p/types.ts'' \<mapsto> File ''TY'',
      ''/p/node_modules'' \<mapsto> Dir,
      ''/p/node_modules/left.js'' \<mapsto> File ''L'',
      ''/p/node_modules/pk'' \<mapsto> Dir,
      ''/p/node_modules/pk/package.json'' \<mapsto> File ''PK'',
      ''/p/node_modules/pk/lib'' \<mapsto> Dir,
      ''/p/node_modules/pk/lib/main.js'' \<mapsto> File ''M'',
      ''/p/node_modules/ghost'' \<mapsto> Dir,
      ''/p/node_modules/ghost/package.json'' \<mapsto> File ''GH'']"

definition demoImports :: "string \<Rightarrow> string list" where
  "demoImports content =
     (if content = ''A'' then [dq ''./b'', dq ''./c'']
      else if content = ''B'' then [dq ''./d'', dq ''./a.ts'', dq ''left'']
      else if content = ''D'' then [dq ''pk'']
      else if content = ''E'' then [dq ''ghost'']
      else if content = ''Q'' then [sq ''./b'']
      else if content = ''T'' then [dq ''./types'']
      else [])"

definition demoManifest :: "string \<Rightarrow> (field \<times> field) option" where
  "demoManifest content =
     (if content = ''PK'' then Some (Absent, Str ''lib/main.js'')
      else if content = ''GH'' then Some (Str ''nope.js'', Absent)
      else None)"

definition demoEnv :: env where
  "demoEnv =
     \<lparr>fs = demoFs, cwd = ''/p'', importSpecifiers = demoImports,
      transpileModule = (\<lambda>content. ''js:'' @ content),
      getPreEmitDiagnostics = (\<lambda>entryFile. []),
      manifest = demoManifest\<rparr>"

text \<open>A machine with no \<^verbatim>\<open>node_modules\<close> directory anywhere: one file that imports a package.\<close>

definition bareEnv :: env where
  "bareEnv =
     \<lparr>fs = [''/'' \<mapsto> Dir, ''/a.ts'' \<mapsto> File ''A''], cwd = ''/'',
      importSpecifiers = (\<lambda>content. if content = ''A'' then [dq ''foo''] else []),
      transpileModule = (\<lambda>content. content),
      getPreEmitDiagnostics = (\<lambda>entryFile. []),
      manifest = (\<lambda>content. None)\<rparr>"





definition replaceBundle :: "Module list" where
  "replaceBundle =
     [\<lparr>id_m = Some 0, file_m = ''/p/a.ts'', deps = [(''./b'', 1)], transpiled = ''A''\<rparr>,
      \<lparr>id_m = Some 1, file_m = ''/p/b.ts'', deps = [], transpiled = ''B''\<rparr>]"

definition replaceSem :: "string \<Rightarrow> action list" where
  "replaceSem body =
     (if body = ''A'' then [Require ''./b'', Require ''./b'']
      else if body = ''B'' then [ReplaceExports]
      else [])"


definition requiredOf ::
  "(completion \<times> rstate) option \<Rightarrow> (nat option \<times> string \<times> nat) list option" where
  "requiredOf x = map_option (\<lambda>(r, st). required st) x"

definition completionOf :: "(completion \<times> rstate) option \<Rightarrow> completion option" where
  "completionOf x = map_option fst x"


section \<open>The states of a build\<close>

text \<open>
  The paths discovered so far, in the order of their discovery: the files of the
  modules already compiled, the file being compiled (\<open>cur\<close>, a list of at most one
  path), and the worklist.
\<close>

definition discovered :: "bstate \<Rightarrow> string list \<Rightarrow> string list" where
  "discovered s cur = map file_m (modules s) @ cur @ files s"

text \<open>
  \<open>visited e entry cur s\<close>: the build of \<open>entry\<close> passes through the state \<open>s\<close>, with
  \<open>cur\<close> the file being compiled.  Between two compilations \<open>cur\<close> is empty (rules
  \<open>init\<close> and \<open>step\<close>, one turn of the \<^verbatim>\<open>while\<close> loop); inside \<^verbatim>\<open>compile(f)\<close>, after
  any number \<open>ts1\<close> of the import declarations of \<open>f\<close>, \<open>cur\<close> is \<open>[f]\<close> (rule \<open>scan\<close>).
\<close>

inductive visited :: "env \<Rightarrow> string \<Rightarrow> string list \<Rightarrow> bstate \<Rightarrow> bool" for e entry where
  init: "visited e entry [] (initState entry)"
| scan: "visited e entry [] s \<Longrightarrow> files s = f # rest \<Longrightarrow> f \<noteq> [] \<Longrightarrow>
         fs e f = Some (File content) \<Longrightarrow> importSpecifiers e content = ts1 @ ts2 \<Longrightarrow>
         forEachImport e f ts1 [] (s\<lparr>files := rest\<rparr>) = Some (Inr (ds, s')) \<Longrightarrow>
         visited e entry [f] s'"
| step: "visited e entry [] s \<Longrightarrow> files s = f # rest \<Longrightarrow> f \<noteq> [] \<Longrightarrow>
         compile e f (s\<lparr>files := rest\<rparr>) = Some (Inr (m, s')) \<Longrightarrow>
         visited e entry [] (s'\<lparr>modules := modules s' @ [m]\<rparr>)"

text \<open>
  The registry numbers the discovered paths 0, 1, 2, ... in the order of their
  discovery, and knows no other path.
\<close>

definition registry_ok :: "string \<Rightarrow> string list \<Rightarrow> bstate \<Rightarrow> bool" where
  "registry_ok entry cur s \<longleftrightarrow>
     map (moduleToId s) (discovered s cur) = map Some [0..<Suc (moduleId s)]
     \<and> dom (moduleToId s) = set (discovered s cur)
     \<and> hd (discovered s cur) = entry"

text \<open>A dependency table of the file \<open>f\<close> maps each specifier to the identity of the path it resolves to.\<close>

definition deps_ok :: "env \<Rightarrow> string \<Rightarrow> bstate \<Rightarrow> (string \<times> nat) list \<Rightarrow> bool" where
  "deps_ok e f s ds \<longleftrightarrow>
     (\<forall>(dep, depID) \<in> set ds. \<exists>g. resolveDep e dep f = Some (Inr g) \<and> moduleToId s g = Some depID)"

text \<open>The paths that the import declarations \<open>ts\<close> of the file \<open>f\<close> resolve to.\<close>

definition targets :: "env \<Rightarrow> string \<Rightarrow> string list \<Rightarrow> string set" where
  "targets e f ts = {g. \<exists>t \<in> set ts. \<exists>dep. JSON_parse t = Some dep \<and> resolveDep e dep f = Some (Inr g)}"

text \<open>The specifiers a readable file imports, as \<^verbatim>\<open>compile\<close> reads them.\<close>

definition specifiersOf :: "env \<Rightarrow> string \<Rightarrow> string set" where
  "specifiersOf e f =
     {dep. \<exists>content t. fs e f = Some (File content) \<and> t \<in> set (importSpecifiers e content)
             \<and> JSON_parse t = Some dep}"

text \<open>
  A compiled module: its identity is the registry's, its body is the transpiled content
  of its file, and its dependency table has one entry for each specifier the file
  imports, leading to the identity of the resolved path.
\<close>

definition module_ok :: "env \<Rightarrow> bstate \<Rightarrow> Module \<Rightarrow> bool" where
  "module_ok e s m \<longleftrightarrow>
     id_m m = moduleToId s (file_m m)
     \<and> (\<exists>content. fs e (file_m m) = Some (File content) \<and> transpiled m = transpileModule e content)
     \<and> fst ` set (deps m) = specifiersOf e (file_m m)
     \<and> distinct (map fst (deps m))
     \<and> deps_ok e (file_m m) s (deps m)"

definition build_inv :: "env \<Rightarrow> string \<Rightarrow> string list \<Rightarrow> bstate \<Rightarrow> bool" where
  "build_inv e entry cur s \<longleftrightarrow>
     registry_ok entry cur s
     \<and> [] \<notin> set (cur @ files s)
     \<and> (\<forall>m \<in> set (modules s). module_ok e s m)
     \<and> (\<forall>p \<in> dom (moduleToId s). (entry, p) \<in> (importEdges e)\<^sup>*)
     \<and> (\<forall>m \<in> set (modules s). \<forall>g. (file_m m, g) \<in> importEdges e \<longrightarrow> g \<in> dom (moduleToId s))"

section \<open>The states of a running bundle\<close>

text \<open>A later state of the loader: nothing cached is lost or changed, and the logs only grow.\<close>

definition extends :: "rstate \<Rightarrow> rstate \<Rightarrow> bool" where
  "extends st st' \<longleftrightarrow>
     executedModules st \<subseteq>\<^sub>m executedModules st'
     \<and> nextObj st \<le> nextObj st'
     \<and> (\<exists>new. invoked st' = invoked st @ new)
     \<and> (\<exists>new. required st' = required st @ new)"

text \<open>
  The factories called so far are pairwise different, and they are those of the cached
  identities that have a module; every cached object has been allocated; every
  \<^verbatim>\<open>require\<close> that returned was made by a module of the table for an identity that is
  cached.
\<close>

definition rt_inv :: "table \<Rightarrow> rstate \<Rightarrow> bool" where
  "rt_inv tab st \<longleftrightarrow>
     distinct (invoked st)
     \<and> set (invoked st) = {k. executedModules st k \<noteq> None \<and> tab k \<noteq> None}
     \<and> (\<forall>k obj. executedModules st k = Some obj \<longrightarrow> obj < nextObj st)
     \<and> (\<forall>(ident, path, obj) \<in> set (required st).
           \<exists>factory ds. tab ident = Some (factory, ds)
             \<and> executedModules st (depLookup ds path) \<noteq> None)"


section \<open>Facts about paths\<close>







lemma resolve_nonempty: "resolve c args \<noteq> []"
  by (simp add: resolve_def)

lemma localModulePath_nonempty: "localModulePath e path from = Inr p \<Longrightarrow> p \<noteq> []"
  by (auto simp: localModulePath_def Let_def resolve_nonempty split: if_splits option.splits)

lemmas path_eval =
  resolve_def normalizeString_def normalize_step_def resolve_step_def dirname_def
  endsWith_def startsWith_def isFile_def isDir_def

section \<open>Relative resolution\<close>



section \<open>Package resolution\<close>

lemma failure_case_eq:
  "(case x of Some (Inl err) \<Rightarrow> err = v | _ \<Rightarrow> False) \<longleftrightarrow> x = Some (Inl v)"
  by (auto split: option.splits sum.splits)

text \<open>
  The loop of \<^verbatim>\<open>npmModulePath\<close> returns exactly when some iterate of \<^verbatim>\<open>dirname\<close> on the
  starting directory holds a \<^verbatim>\<open>node_modules\<close> directory.
\<close>

lemma findProjRoot_SomeD:
  assumes a: "findProjRoot e p = Some r"
  shows "isDir e (resolve (cwd e) [r, ''node_modules'']) \<and> (\<exists>k. r = (dirname ^^ k) p)"
proof (rule findProjRoot.raw_induct
    [where P = "\<lambda>e p r. isDir e (resolve (cwd e) [r, ''node_modules'']) \<and> (\<exists>k. r = (dirname ^^ k) p)",
     OF _ a])
  fix f :: "env \<Rightarrow> string \<Rightarrow> string option" and e p r
  assume IH: "\<And>e p r. f e p = Some r \<Longrightarrow>
      isDir e (resolve (cwd e) [r, ''node_modules'']) \<and> (\<exists>k. r = (dirname ^^ k) p)"
    and eq: "(if \<not> isDir e (resolve (cwd e) [p, ''node_modules''])
      then f e (dirname p) else Some p) = Some r"
  show "isDir e (resolve (cwd e) [r, ''node_modules'']) \<and> (\<exists>k. r = (dirname ^^ k) p)"
  proof (cases "isDir e (resolve (cwd e) [p, ''node_modules''])")
    case True
    with eq have "r = p" by simp
    with True show ?thesis by (auto intro: exI [of _ 0])
  next
    case False
    with eq have "f e (dirname p) = Some r" by simp
    from IH [OF this] obtain k where "isDir e (resolve (cwd e) [r, ''node_modules''])"
      "r = (dirname ^^ k) (dirname p)" by auto
    then show ?thesis
      by (auto intro!: exI [of _ "Suc k"] simp: funpow_swap1)
  qed
qed

lemma findProjRoot_diverges:
  assumes "\<forall>k. \<not> isDir e (resolve (cwd e) [(dirname ^^ k) p, ''node_modules''])"
  shows "findProjRoot e p = None"
proof (cases "findProjRoot e p")
  case None
  then show ?thesis .
next
  case (Some r)
  from findProjRoot_SomeD [OF this] assms show ?thesis by auto
qed

lemma findProjRoot_terminates:
  "isDir e (resolve (cwd e) [(dirname ^^ k) p, ''node_modules'']) \<Longrightarrow> \<exists>r. findProjRoot e p = Some r"
proof (induction k arbitrary: p)
  case 0
  then show ?case by (subst findProjRoot.simps) simp
next
  case (Suc k)
  then have "\<exists>r. findProjRoot e (dirname p) = Some r"
    by (simp add: funpow_swap1)
  then show ?case by (subst findProjRoot.simps) auto
qed

lemma dirname_root_pow: "(dirname ^^ k) ''/'' = ''/''"
  by (induction k) (simp_all add: dirname_def)

lemma bareEnv_no_root: "findProjRoot bareEnv ''/'' = None"
  by (rule findProjRoot_diverges) (simp add: dirname_root_pow bareEnv_def path_eval)

lemma npmModulePath_nonempty: "npmModulePath e pkg from = Some (Inr p) \<Longrightarrow> p \<noteq> []"
  by (auto simp: npmModulePath_def packageEntry_def Let_def resolve_nonempty
      split: option.splits if_splits node.splits field.splits)

text \<open>The machine without \<^verbatim>\<open>node_modules\<close>: the walk, the build and the program never return.\<close>

lemma bareEnv_dirname: "dirname ''/a.ts'' = ''/''" "dirname ''/'' = ''/''"
  by (simp_all add: dirname_def)

lemma bareEnv_npm: "npmModulePath bareEnv ''foo'' ''/a.ts'' = None"
  by (simp add: npmModulePath_def bareEnv_dirname bareEnv_no_root)

lemma bareEnv_build: "build bareEnv ''/a.ts'' = None"
proof -
  have r: "resolveDep bareEnv ''foo'' ''/a.ts'' = None"
    by (simp add: resolveDep_def startsWith_def bareEnv_npm)
  have j: "JSON_parse (dq ''foo'') = Some ''foo''"
    by code_simp
  have c: "compile bareEnv ''/a.ts'' s = None" for s
    by (simp add: compile_def bareEnv_def j) (simp add: r [unfolded bareEnv_def])
  show ?thesis
    unfolding build_def
    by (subst buildLoop.simps) (simp add: initState_def c)
qed

lemma bareEnv_entry: "localModulePath bareEnv ''a.ts'' None = Inr ''/a.ts''"
  by (simp add: localModulePath_def bareEnv_def path_eval)

lemma bareEnv_main: "main bareEnv [''node'', ''kidnap'', ''a.ts'', ''-o'', ''out.js''] = None"
  by (simp add: main_def bareEnv_entry bareEnv_build) (simp add: bareEnv_def)

text \<open>
  Claim C4, at the input where the program departs from it.  On a machine without any
  \<^verbatim>\<open>node_modules\<close> directory, the file \<^verbatim>\<open>/a.ts\<close> imports the package \<^verbatim>\<open>foo\<close>.  The walk
  starts at \<^verbatim>\<open>/\<close>, and \<^verbatim>\<open>dirname('/')\<close> is \<^verbatim>\<open>/\<close> again: the loop of \<^verbatim>\<open>npmModulePath\<close>
  never ends, so neither the resolution nor the build returns, with a path or with a
  failure.
\<close>

theorem npmModulePath_root_loop:
  "dirname ''/'' = ''/''
   \<and> \<not> isDir bareEnv (resolve (cwd bareEnv) [''/'', ''node_modules''])
   \<and> npmModulePath bareEnv ''foo'' ''/a.ts'' = None
   \<and> build bareEnv ''/a.ts'' = None
   \<and> main bareEnv [''node'', ''kidnap'', ''a.ts'', ''-o'', ''out.js''] = None"
  using bareEnv_dirname(2) bareEnv_npm bareEnv_build bareEnv_main
  by (simp add: bareEnv_def path_eval)

text \<open>
  Claim C10.  Once the walk has found the project root, and no \<^verbatim>\<open><package>.js\<close> file
  stands beside the package directory, a manifest whose \<^verbatim>\<open>module\<close> field (or, without
  one, whose \<^verbatim>\<open>main\<close> field) is a non-empty string \<open>m\<close> decides the result: \<open>m\<close>
  resolved against the package directory, whatever the file system holds at that path.
  When no file is there, the failure comes from reading it (\<^verbatim>\<open>readFile\<close> in
  \<^verbatim>\<open>compile\<close>), not from the resolution.
\<close>

theorem npmModulePath_manifest_unchecked:
  assumes "findProjRoot e (dirname from) = Some projRoot"
    and "\<not> isFile e (resolve (cwd e) [projRoot, ''node_modules'', pkg] @ ''.js'')"
    and "fs e (resolve (cwd e) [resolve (cwd e) [projRoot, ''node_modules'', pkg], ''package.json''])
           = Some (File content)"
    and "manifest e content = Some (module, main0)"
    and "(module = Str m \<and> m \<noteq> []) \<or> (\<not> truthy module \<and> main0 = Str m \<and> m \<noteq> [])"
  shows "npmModulePath e pkg from
           = Some (Inr (resolve (cwd e) [resolve (cwd e) [projRoot, ''node_modules'', pkg], m]))
         \<and> (\<not> isFile e (resolve (cwd e) [resolve (cwd e) [projRoot, ''node_modules'', pkg], m]) \<longrightarrow>
              (\<forall>s. compile e (resolve (cwd e) [resolve (cwd e) [projRoot, ''node_modules'', pkg], m]) s
                 = Some (Inl (IOError
                     (resolve (cwd e) [resolve (cwd e) [projRoot, ''node_modules'', pkg], m])))))"
proof -
  have "packageEntry e pkg projRoot
          = Inr (resolve (cwd e) [resolve (cwd e) [projRoot, ''node_modules'', pkg], m])"
    using assms(2-5) by (auto simp: packageEntry_def Let_def truthy_def)
  then have 1: "npmModulePath e pkg from
           = Some (Inr (resolve (cwd e) [resolve (cwd e) [projRoot, ''node_modules'', pkg], m]))"
    using assms(1) by (simp add: npmModulePath_def)
  have 2: "compile e p s = Some (Inl (IOError p))" if "\<not> isFile e p" for p s
    using that by (auto simp: compile_def isFile_def split: option.splits node.splits)
  from 1 2 show ?thesis by blast
qed

theorem npmModulePath_manifest_unchecked_witness:
  "npmModulePath demoEnv ''ghost'' ''/p/e.ts'' = Some (Inr ''/p/node_modules/ghost/nope.js'')
   \<and> \<not> isFile demoEnv ''/p/node_modules/ghost/nope.js''
   \<and> (\<forall>s. compile demoEnv ''/p/node_modules/ghost/nope.js'' s
          = Some (Inl (IOError ''/p/node_modules/ghost/nope.js'')))
   \<and> build demoEnv ''/p/e.ts'' = Some (Inl (IOError ''/p/node_modules/ghost/nope.js''))"
proof -
  have h1: "findProjRoot demoEnv (dirname ''/p/e.ts'') = Some ''/p''"
    by code_simp
  have h2: "\<not> isFile demoEnv (resolve (cwd demoEnv) [''/p'', ''node_modules'', ''ghost''] @ ''.js'')"
    by code_simp
  have h3: "fs demoEnv (resolve (cwd demoEnv)
              [resolve (cwd demoEnv) [''/p'', ''node_modules'', ''ghost''], ''package.json''])
            = Some (File ''GH'')"
    by code_simp
  have h4: "manifest demoEnv ''GH'' = Some (Str ''nope.js'', Absent)"
    by code_simp
  have h5: "(Str ''nope.js'' = Str ''nope.js'' \<and> ''nope.js'' \<noteq> [])
            \<or> (\<not> truthy (Str ''nope.js'') \<and> Absent = Str ''nope.js'' \<and> ''nope.js'' \<noteq> [])"
    by simp
  have r: "resolve (cwd demoEnv) [resolve (cwd demoEnv) [''/p'', ''node_modules'', ''ghost''], ''nope.js'']
           = ''/p/node_modules/ghost/nope.js''"
    by code_simp
  have nf: "\<not> isFile demoEnv ''/p/node_modules/ghost/nope.js''"
    by code_simp
  have b: "build demoEnv ''/p/e.ts'' = Some (Inl (IOError ''/p/node_modules/ghost/nope.js''))"
    unfolding failure_case_eq [symmetric] by code_simp
  from npmModulePath_manifest_unchecked [OF h1 h2 h3 h4 h5] nf b show ?thesis
    unfolding r by simp
qed

section \<open>Specifiers that are not JSON\<close>

lemma JSON_parse_not_quoted:
  "t \<noteq> [] \<Longrightarrow> \<not> json_ws (hd t) \<Longrightarrow> hd t \<noteq> CHR 0x22 \<Longrightarrow> JSON_parse t = None"
  by (cases t) (auto simp: JSON_parse_def)

text \<open>
  Claim C5, at the input where the program departs from it.  A string literal between
  single quotes is a literal string of the source language, and \<^verbatim>\<open>JSON.parse\<close> rejects
  every such text.  In the demo project \<^verbatim>\<open>q.ts\<close> imports \<^verbatim>\<open>'./b'\<close>, which names the
  existing file \<^verbatim>\<open>/p/b.ts\<close>; the build stops with the exception of \<^verbatim>\<open>JSON.parse\<close>, while
  the same import between double quotes builds.
\<close>

theorem single_quoted_specifier_fails:
  "(\<forall>s. JSON_parse (sq s) = None)
   \<and> importSpecifiers demoEnv ''Q'' = [sq ''./b'']
   \<and> localModulePath demoEnv ''./b'' (Some ''/p/q.ts'') = Inr ''/p/b.ts''
   \<and> build demoEnv ''/p/q.ts'' = Some (Inl (SpecifierError (sq ''./b'')))
   \<and> JSON_parse (dq ''./b'') = Some ''./b''"
proof -
  have 1: "JSON_parse (sq s) = None" for s
    by (rule JSON_parse_not_quoted) (simp_all add: sq_def json_ws_def)
  have 2: "importSpecifiers demoEnv ''Q'' = [sq ''./b'']"
    by (simp add: demoEnv_def demoImports_def)
  have 3: "localModulePath demoEnv ''./b'' (Some ''/p/q.ts'') = Inr ''/p/b.ts''"
    by code_simp
  have 4: "build demoEnv ''/p/q.ts'' = Some (Inl (SpecifierError (sq ''./b'')))"
    unfolding failure_case_eq [symmetric] by code_simp
  have 5: "JSON_parse (dq ''./b'') = Some ''./b''"
    by code_simp
  from 1 2 3 4 5 show ?thesis by blast
qed

section \<open>Failures and the output file\<close>

text \<open>
  Claim C8, at the input where the program departs from it.  On the machine without
  any \<^verbatim>\<open>node_modules\<close> directory the entry file \<^verbatim>\<open>a.ts\<close> resolves, the type check
  reports nothing, and the file imports the package \<^verbatim>\<open>foo\<close>.  No candidate for \<^verbatim>\<open>foo\<close>
  exists: at the root, the only directory the walk ever looks at, the search for the
  package ends in \<^verbatim>\<open>Cannot find module\<close>.  So the specifier is unresolved; but the
  program never gets to report it, since the walk of \<^verbatim>\<open>npmModulePath\<close> does not end (the
  defect shown for claim C4).  The run neither exits with a code nor fails: it does not
  return.
\<close>

theorem unresolved_package_never_exits:
  "localModulePath bareEnv ''a.ts'' None = Inr ''/a.ts''
   \<and> getPreEmitDiagnostics bareEnv ''/a.ts'' = []
   \<and> fs bareEnv ''/a.ts'' = Some (File ''A'')
   \<and> importSpecifiers bareEnv ''A'' = [dq ''foo'']
   \<and> packageEntry bareEnv ''foo'' ''/'' = Inl (cannotFind ''foo'')
   \<and> main bareEnv [''node'', ''kidnap'', ''a.ts'', ''-o'', ''out.js''] = None"
proof -
  have 1: "getPreEmitDiagnostics bareEnv ''/a.ts'' = []"
    "fs bareEnv ''/a.ts'' = Some (File ''A'')"
    "importSpecifiers bareEnv ''A'' = [dq ''foo'']"
    by (simp_all add: bareEnv_def)
  have 2: "packageEntry bareEnv ''foo'' ''/'' = Inl (cannotFind ''foo'')"
    by code_simp
  show ?thesis
    by (intro conjI bareEnv_entry 1 2 bareEnv_main)
qed

text \<open>
  Apart from that, failures stop the program at once.  Each failure the program
  detects ends the run with the outcome \<open>exitWith\<close>: exit code 1, and the file system
  as it was.
\<close>

lemma exitWith_outcome:
  "exitCode (exitWith e err) = 1 \<and> failure (exitWith e err) = Some err
   \<and> fsAfter (exitWith e err) = fs e"
  by (simp add: exitWith_def)

lemma main_no_input:
  "input_o (parseArgs argv 0 \<lparr>input_o = None, output_o = None\<rparr>) = None
   \<or> input_o (parseArgs argv 0 \<lparr>input_o = None, output_o = None\<rparr>) = Some [] \<Longrightarrow>
   main e argv = Some (exitWith e (ExitError ''No input is provided.''))"
  by (auto simp: main_def Let_def)

lemma main_entry_failure:
  "input_o (parseArgs argv 0 \<lparr>input_o = None, output_o = None\<rparr>) = Some inp \<Longrightarrow> inp \<noteq> [] \<Longrightarrow>
   localModulePath e inp None = Inl err \<Longrightarrow>
   main e argv = Some (exitWith e err)"
  by (simp add: main_def Let_def)

lemma main_typecheck_failure:
  "input_o (parseArgs argv 0 \<lparr>input_o = None, output_o = None\<rparr>) = Some inp \<Longrightarrow> inp \<noteq> [] \<Longrightarrow>
   localModulePath e inp None = Inr entryFile \<Longrightarrow>
   getPreEmitDiagnostics e entryFile \<noteq> [] \<Longrightarrow>
   main e argv = Some (exitWith e (ExitError ''Type check Error.''))"
  by (simp add: main_def Let_def)

lemma main_build_failure:
  "input_o (parseArgs argv 0 \<lparr>input_o = None, output_o = None\<rparr>) = Some inp \<Longrightarrow> inp \<noteq> [] \<Longrightarrow>
   localModulePath e inp None = Inr entryFile \<Longrightarrow>
   getPreEmitDiagnostics e entryFile = [] \<Longrightarrow>
   build e entryFile = Some (Inl err) \<Longrightarrow>
   main e argv = Some (exitWith e err)"
  by (simp add: main_def Let_def)

lemma main_write_failure:
  "input_o (parseArgs argv 0 \<lparr>input_o = None, output_o = None\<rparr>) = Some inp \<Longrightarrow> inp \<noteq> [] \<Longrightarrow>
   localModulePath e inp None = Inr entryFile \<Longrightarrow>
   getPreEmitDiagnostics e entryFile = [] \<Longrightarrow>
   build e entryFile = Some (Inr s) \<Longrightarrow>
   writeFile e (output_o (parseArgs argv 0 \<lparr>input_o = None, output_o = None\<rparr>))
     (bundleText (modules s)) = Inl err \<Longrightarrow>
   main e argv = Some (exitWith e err)"
  by (simp add: main_def Let_def)

text \<open>
  And of every run that ends: it has exit code 0 or 1.  It ends with a code other than
  0 with the file system as it found it: nothing was written.  It ends with code 0 only
  when the entry file was resolved, the type check reported nothing, the build ended
  without any failure and the write succeeded; then the one change to the file system
  is the output file, holding the whole bundle.
\<close>

theorem main_writes_only_on_success:
  assumes "main e argv = Some out"
  shows "(exitCode out \<noteq> 0 \<longrightarrow> exitCode out = 1 \<and> failure out \<noteq> None \<and> fsAfter out = fs e)
     \<and> (exitCode out = 0 \<longrightarrow>
          failure out = None
          \<and> (\<exists>inp entryFile s path.
                input_o (parseArgs argv 0 \<lparr>input_o = None, output_o = None\<rparr>) = Some inp
              \<and> inp \<noteq> []
              \<and> localModulePath e inp None = Inr entryFile
              \<and> getPreEmitDiagnostics e entryFile = []
              \<and> build e entryFile = Some (Inr s)
              \<and> output_o (parseArgs argv 0 \<lparr>input_o = None, output_o = None\<rparr>) = Some path
              \<and> fsAfter out = (fs e)(resolve (cwd e) [path] \<mapsto> File (bundleText (modules s)))))
     \<and> (\<forall>inp entryFile err.
            input_o (parseArgs argv 0 \<lparr>input_o = None, output_o = None\<rparr>) = Some inp
          \<and> inp \<noteq> []
          \<and> localModulePath e inp None = Inr entryFile
          \<and> getPreEmitDiagnostics e entryFile = []
          \<and> build e entryFile = Some (Inl err)
          \<longrightarrow> out = exitWith e err)"
  using assms
  by (auto simp: main_def Let_def exitWith_def writeFile_def
      split: option.splits sum.splits if_splits)

theorem main_writes_only_on_success_witness:
  "(\<exists>out. main demoEnv [''node'', ''kidnap'', ''zz'', ''-o'', ''out.js''] = Some out
      \<and> exitCode out = 1 \<and> failure out = Some (cannotFind ''zz'') \<and> fsAfter out = fs demoEnv)
   \<and> (\<exists>out. main demoEnv [''node'', ''kidnap'', ''e'', ''-o'', ''out.js''] = Some out
      \<and> exitCode out = 1 \<and> failure out = Some (IOError ''/p/node_modules/ghost/nope.js'')
      \<and> fsAfter out = fs demoEnv)
   \<and> (\<exists>out s. main demoEnv [''node'', ''kidnap'', ''c'', ''-o'', ''out.js''] = Some out
      \<and> exitCode out = 0 \<and> build demoEnv ''/p/c.ts'' = Some (Inr s)
      \<and> fsAfter out = (fs demoEnv)(''/p/out.js'' \<mapsto> File (bundleText (modules s))))"
proof -
  have a: "map_option (\<lambda>out. (exitCode out, failure out))
             (main demoEnv [''node'', ''kidnap'', ''zz'', ''-o'', ''out.js''])
           = Some (1, Some (cannotFind ''zz''))"
    by code_simp
  then obtain out1 where o1: "main demoEnv [''node'', ''kidnap'', ''zz'', ''-o'', ''out.js''] = Some out1"
    "exitCode out1 = 1" "failure out1 = Some (cannotFind ''zz'')"
    by auto
  have b: "map_option (\<lambda>out. (exitCode out, failure out))
             (main demoEnv [''node'', ''kidnap'', ''e'', ''-o'', ''out.js''])
           = Some (1, Some (IOError ''/p/node_modules/ghost/nope.js''))"
    by code_simp
  then obtain out2 where o2: "main demoEnv [''node'', ''kidnap'', ''e'', ''-o'', ''out.js''] = Some out2"
    "exitCode out2 = 1" "failure out2 = Some (IOError ''/p/node_modules/ghost/nope.js'')"
    by auto
  have c: "map_option exitCode (main demoEnv [''node'', ''kidnap'', ''c'', ''-o'', ''out.js'']) = Some 0"
    by code_simp
  then obtain out3 where o3: "main demoEnv [''node'', ''kidnap'', ''c'', ''-o'', ''out.js''] = Some out3"
    "exitCode out3 = 0"
    by auto
  have args: "parseArgs [''node'', ''kidnap'', ''c'', ''-o'', ''out.js''] 0 \<lparr>input_o = None, output_o = None\<rparr>
       = \<lparr>input_o = Some ''c'', output_o = Some ''out.js''\<rparr>"
    by simp
  have l: "localModulePath demoEnv ''c'' None = Inr ''/p/c.ts''"
    by code_simp
  have r: "resolve (cwd demoEnv) [''out.js''] = ''/p/out.js''"
    by code_simp
  from main_writes_only_on_success [OF o1(1)] o1 have 1: "fsAfter out1 = fs demoEnv" by simp
  from main_writes_only_on_success [OF o2(1)] o2 have 2: "fsAfter out2 = fs demoEnv" by simp
  from main_writes_only_on_success [OF o3(1)] o3
  have 3: "\<exists>s. build demoEnv ''/p/c.ts'' = Some (Inr s)
      \<and> fsAfter out3 = (fs demoEnv)(''/p/out.js'' \<mapsto> File (bundleText (modules s)))"
    unfolding args by (auto simp: l r)
  from o1 o2 o3 1 2 3 show ?thesis by blast
qed

section \<open>Invariants of the build\<close>

lemma map_set_keys: "fst ` set (map_set ds k v) = insert k (fst ` set ds)"
  by (induction ds k v rule: map_set.induct) auto

lemma map_set_subset: "set (map_set ds k v) \<subseteq> insert (k, v) (set ds)"
  by (induction ds k v rule: map_set.induct) auto

lemma map_set_distinct: "distinct (map fst ds) \<Longrightarrow> distinct (map fst (map_set ds k v))"
proof (induction ds k v rule: map_set.induct)
  case (1 k v)
  then show ?case by simp
next
  case (2 k' v' m k v)
  then show ?case
    using map_set_keys [of m k v] by (auto simp: image_iff)
qed

lemma registry_ok_distinct: "registry_ok entry cur s \<Longrightarrow> distinct (discovered s cur)"
proof -
  assume "registry_ok entry cur s"
  then have "map (moduleToId s) (discovered s cur) = map Some [0..<Suc (moduleId s)]"
    by (simp add: registry_ok_def)
  moreover have "distinct (map Some [0..<Suc (moduleId s)])"
    by (simp del: upt_Suc add: distinct_map)
  ultimately show ?thesis
    by (metis distinct_map)
qed

lemma registry_ok_nonempty: "registry_ok entry cur s \<Longrightarrow> discovered s cur \<noteq> []"
  by (auto simp: registry_ok_def)

lemma register_known:
  "moduleToId s p = Some i \<Longrightarrow> register p s = (i, s)"
  by (simp add: register_def)

lemma register_new:
  "moduleToId s p = None \<Longrightarrow>
   register p s = (Suc (moduleId s),
     s\<lparr>moduleId := Suc (moduleId s), moduleToId := (moduleToId s)(p \<mapsto> Suc (moduleId s)),
       files := files s @ [p]\<rparr>)"
  by (simp add: register_def Let_def)

lemma register_registry_ok:
  assumes ok: "registry_ok entry cur s" and r: "register p s = (i, s')"
  shows "registry_ok entry cur s'"
proof (cases "moduleToId s p")
  case (Some j)
  with r ok show ?thesis by (simp add: register_known)
next
  case None
  from r have s': "s' = s\<lparr>moduleId := Suc (moduleId s),
      moduleToId := (moduleToId s)(p \<mapsto> Suc (moduleId s)), files := files s @ [p]\<rparr>"
    by (auto simp: register_new [OF None])
  from None ok have notin: "p \<notin> set (discovered s cur)"
    by (auto simp: registry_ok_def)
  have d: "discovered s' cur = discovered s cur @ [p]"
    by (simp add: s' discovered_def)
  have m1: "map (moduleToId s') (discovered s cur) = map (moduleToId s) (discovered s cur)"
    using notin by (auto simp: s')
  have m2: "moduleToId s' p = Some (Suc (moduleId s))" by (simp add: s')
  have m3: "moduleId s' = Suc (moduleId s)" by (simp add: s')
  have "map (moduleToId s') (discovered s' cur)
        = map (moduleToId s) (discovered s cur) @ [Some (Suc (moduleId s))]"
    by (simp only: d map_append m1 m2 list.map)
  also have "\<dots> = map Some [0..<Suc (moduleId s)] @ [Some (Suc (moduleId s))]"
    using ok by (simp only: registry_ok_def)
  also have "\<dots> = map Some [0..<Suc (moduleId s')]"
    by (simp add: m3)
  finally have 1: "map (moduleToId s') (discovered s' cur) = map Some [0..<Suc (moduleId s')]" .
  have 2: "dom (moduleToId s') = set (discovered s' cur)"
    using ok by (simp add: d registry_ok_def del: upt_Suc) (simp add: s')
  have 3: "hd (discovered s' cur) = entry"
    using ok registry_ok_nonempty [OF ok] by (simp add: d registry_ok_def del: upt_Suc)
  from 1 2 3 show ?thesis by (simp add: registry_ok_def)
qed

lemma register_facts:
  assumes r: "register p s = (i, s')"
  shows "moduleToId s' p = Some i"
    and "moduleToId s \<subseteq>\<^sub>m moduleToId s'"
    and "modules s' = modules s"
    and "dom (moduleToId s') = insert p (dom (moduleToId s))"
    and "\<exists>new. files s' = files s @ new \<and> set new \<subseteq> {p}"
proof -
  show "moduleToId s' p = Some i"
    using r by (cases "moduleToId s p") (auto simp: register_known register_new)
  show "moduleToId s \<subseteq>\<^sub>m moduleToId s'"
    using r by (cases "moduleToId s p") (auto simp: register_known register_new map_le_def)
  show "modules s' = modules s"
    using r by (cases "moduleToId s p") (auto simp: register_known register_new)
  show "dom (moduleToId s') = insert p (dom (moduleToId s))"
    using r by (cases "moduleToId s p") (auto simp: register_known register_new)
  show "\<exists>new. files s' = files s @ new \<and> set new \<subseteq> {p}"
    using r by (cases "moduleToId s p") (auto simp: register_known register_new)
qed

lemma deps_ok_mono:
  "deps_ok e f s ds \<Longrightarrow> moduleToId s \<subseteq>\<^sub>m moduleToId s' \<Longrightarrow> deps_ok e f s' ds"
  unfolding deps_ok_def map_le_def by (fastforce simp: dom_def)

lemma deps_ok_map_set:
  assumes "deps_ok e f s ds" "resolveDep e dep f = Some (Inr g)" "moduleToId s g = Some i"
  shows "deps_ok e f s (map_set ds dep i)"
  using assms map_set_subset [of ds dep i] unfolding deps_ok_def by auto

lemma resolveDep_nonempty: "resolveDep e dep f = Some (Inr g) \<Longrightarrow> g \<noteq> []"
  by (auto simp: resolveDep_def split: if_splits
      dest: localModulePath_nonempty npmModulePath_nonempty)

lemma forEachImport_facts:
  assumes "forEachImport e f ts ds s = Some (Inr (ds', s'))"
    and "registry_ok entry cur s" and "deps_ok e f s ds" and "distinct (map fst ds)"
  shows "registry_ok entry cur s'
     \<and> moduleToId s \<subseteq>\<^sub>m moduleToId s'
     \<and> modules s' = modules s
     \<and> dom (moduleToId s') = dom (moduleToId s) \<union> targets e f ts
     \<and> (\<exists>new. files s' = files s @ new \<and> set new \<subseteq> targets e f ts)
     \<and> deps_ok e f s' ds'
     \<and> distinct (map fst ds')
     \<and> fst ` set ds' = fst ` set ds \<union> {dep. \<exists>t \<in> set ts. JSON_parse t = Some dep}"
  using assms
proof (induction ts arbitrary: ds s)
  case Nil
  then show ?case by (simp add: targets_def)
next
  case (Cons t ts)
  from Cons.prems(1) obtain dep where dep: "JSON_parse t = Some dep"
    by (cases "JSON_parse t") auto
  from Cons.prems(1) dep obtain g where g: "resolveDep e dep f = Some (Inr g)"
    by (cases "resolveDep e dep f") (auto split: sum.splits)
  obtain i s1 where reg: "register g s = (i, s1)" by (cases "register g s")
  from Cons.prems(1) dep g reg
  have rec: "forEachImport e f ts (map_set ds dep i) s1 = Some (Inr (ds', s'))" by simp
  note rf = register_facts [OF reg]
  have ok1: "registry_ok entry cur s1"
    by (rule register_registry_ok [OF Cons.prems(2) reg])
  have d1: "deps_ok e f s1 (map_set ds dep i)"
    by (rule deps_ok_map_set [OF deps_ok_mono [OF Cons.prems(3) rf(2)] g rf(1)])
  have k1: "distinct (map fst (map_set ds dep i))"
    by (rule map_set_distinct [OF Cons.prems(4)])
  note IH = Cons.IH [OF rec ok1 d1 k1]
  note c2 = conjunct2 and c1 = conjunct1
  note ih1 = IH [THEN c1]
  note ih2 = IH [THEN c2, THEN c1]
  note ih3 = IH [THEN c2, THEN c2, THEN c1]
  note ih4 = IH [THEN c2, THEN c2, THEN c2, THEN c1]
  note ih5 = IH [THEN c2, THEN c2, THEN c2, THEN c2, THEN c1]
  note ih6 = IH [THEN c2, THEN c2, THEN c2, THEN c2, THEN c2, THEN c1]
  note ih7 = IH [THEN c2, THEN c2, THEN c2, THEN c2, THEN c2, THEN c2, THEN c1]
  note ih8 = IH [THEN c2, THEN c2, THEN c2, THEN c2, THEN c2, THEN c2, THEN c2]
  from ih5 obtain new2 where n2: "files s' = files s1 @ new2" "set new2 \<subseteq> targets e f ts"
    by (elim exE conjE)
  have t: "targets e f (t # ts) = insert g (targets e f ts)"
    using dep g by (auto simp: targets_def)
  from rf(5) obtain new1 where n1: "files s1 = files s @ new1" "set new1 \<subseteq> {g}" by blast
  have files: "\<exists>new. files s' = files s @ new \<and> set new \<subseteq> targets e f (t # ts)"
    using n1 n2 by (intro exI [of _ "new1 @ new2"]) (auto simp: t)
  have le: "moduleToId s \<subseteq>\<^sub>m moduleToId s'"
    using rf(2) ih2 by (rule map_le_trans)
  have dm: "dom (moduleToId s') = dom (moduleToId s) \<union> targets e f (t # ts)"
    unfolding ih4 rf(4) t by blast
  have keys: "fst ` set ds' = fst ` set ds \<union> {dep. \<exists>t \<in> set (t # ts). JSON_parse t = Some dep}"
    unfolding ih8 map_set_keys using dep by auto
  have md: "modules s' = modules s" using ih3 rf(3) by simp
  show ?case
    by (intro conjI) (rule ih1 le md dm files ih6 ih7 keys)+
qed

lemma targets_edges:
  "fs e f = Some (File content) \<Longrightarrow>
   targets e f (importSpecifiers e content) = {g. (f, g) \<in> importEdges e}"
  by (auto simp: targets_def importEdges_def)

lemma specifiersOf_file:
  "fs e f = Some (File content) \<Longrightarrow>
   {dep. \<exists>t \<in> set (importSpecifiers e content). JSON_parse t = Some dep} = specifiersOf e f"
  by (auto simp: specifiersOf_def)

lemma compile_facts:
  assumes c: "compile e f s = Some (Inr (m, s'))" and ok: "registry_ok entry cur s"
  shows "registry_ok entry cur s'
     \<and> moduleToId s \<subseteq>\<^sub>m moduleToId s'
     \<and> modules s' = modules s
     \<and> dom (moduleToId s') = dom (moduleToId s) \<union> {g. (f, g) \<in> importEdges e}
     \<and> (\<exists>new. files s' = files s @ new \<and> set new \<subseteq> {g. (f, g) \<in> importEdges e})
     \<and> file_m m = f
     \<and> id_m m = moduleToId s f
     \<and> (\<exists>content. fs e f = Some (File content) \<and> transpiled m = transpileModule e content)
     \<and> fst ` set (deps m) = specifiersOf e f
     \<and> distinct (map fst (deps m))
     \<and> deps_ok e f s' (deps m)"
proof -
  from c obtain content where content: "fs e f = Some (File content)"
    by (cases "fs e f") (auto simp: compile_def split: node.splits)
  from c content obtain ds where
    fe: "forEachImport e f (importSpecifiers e content) [] s = Some (Inr (ds, s'))"
    and m: "m = \<lparr>id_m = moduleToId s f, file_m = f, deps = ds,
                  transpiled = transpileModule e content\<rparr>"
    by (cases "forEachImport e f (importSpecifiers e content) [] s")
      (auto simp: compile_def split: sum.splits)
  have d0: "deps_ok e f s []" by (simp add: deps_ok_def)
  have k0: "distinct (map fst ([] :: (string \<times> nat) list))" by simp
  note F = forEachImport_facts [OF fe ok d0 k0, unfolded targets_edges [OF content]]
  note c2 = conjunct2 and c1 = conjunct1
  note f1 = F [THEN c1]
  note f2 = F [THEN c2, THEN c1]
  note f3 = F [THEN c2, THEN c2, THEN c1]
  note f4 = F [THEN c2, THEN c2, THEN c2, THEN c1]
  note f5 = F [THEN c2, THEN c2, THEN c2, THEN c2, THEN c1]
  note f6 = F [THEN c2, THEN c2, THEN c2, THEN c2, THEN c2, THEN c1]
  note f7 = F [THEN c2, THEN c2, THEN c2, THEN c2, THEN c2, THEN c2, THEN c1]
  note f8 = F [THEN c2, THEN c2, THEN c2, THEN c2, THEN c2, THEN c2, THEN c2]
  have m1: "file_m m = f" by (simp add: m)
  have m2: "id_m m = moduleToId s f" by (simp add: m)
  have m3: "\<exists>content. fs e f = Some (File content) \<and> transpiled m = transpileModule e content"
    using content by (simp add: m)
  have m4: "fst ` set (deps m) = specifiersOf e f"
    using f8 by (simp add: m specifiersOf_file [OF content])
  have m5: "distinct (map fst (deps m))" using f7 by (simp add: m)
  have m6: "deps_ok e f s' (deps m)" using f6 by (simp add: m)
  show ?thesis
    by (intro conjI) (rule f1 f2 f3 f4 f5 m1 m2 m3 m4 m5 m6)+
qed

lemma module_ok_mono:
  assumes "module_ok e s m" "moduleToId s \<subseteq>\<^sub>m moduleToId s'" "file_m m \<in> dom (moduleToId s)"
  shows "module_ok e s' m"
proof -
  from assms(2,3) have "moduleToId s' (file_m m) = moduleToId s (file_m m)"
    by (simp add: map_le_def)
  with assms(1) deps_ok_mono [OF _ assms(2)] show ?thesis
    by (simp add: module_ok_def)
qed

lemma registry_ok_shift:
  "registry_ok entry [] s \<Longrightarrow> files s = f # rest \<Longrightarrow> registry_ok entry [f] (s\<lparr>files := rest\<rparr>)"
  by (simp add: registry_ok_def discovered_def del: upt_Suc)

lemma registry_ok_push:
  "registry_ok entry [f] s \<Longrightarrow> file_m m = f \<Longrightarrow>
   registry_ok entry [] (s\<lparr>modules := modules s @ [m]\<rparr>)"
  by (simp add: registry_ok_def discovered_def del: upt_Suc)

lemma registry_ok_init: "registry_ok entry [] (initState entry)"
  by (simp add: registry_ok_def discovered_def initState_def)

lemma registry_ok_modules_dom:
  "registry_ok entry cur s \<Longrightarrow> m \<in> set (modules s) \<Longrightarrow> file_m m \<in> dom (moduleToId s)"
  by (simp add: registry_ok_def discovered_def del: upt_Suc)

lemma forEachImport_prefix_targets:
  "targets e f ts1 \<subseteq> targets e f (ts1 @ ts2)"
  by (auto simp: targets_def)

lemma visited_registry:
  "visited e entry cur s \<Longrightarrow> registry_ok entry cur s \<and> (\<forall>m \<in> set (modules s). module_ok e s m)"
proof (induction rule: visited.induct)
  case init
  show ?case by (simp add: registry_ok_init) (simp add: initState_def)
next
  case (scan s f rest content ts1 ts2 ds s')
  let ?s0 = "s\<lparr>files := rest\<rparr>"
  from scan.IH have ok: "registry_ok entry [] s" and mods: "\<forall>m \<in> set (modules s). module_ok e s m"
    by simp_all
  have ok0: "registry_ok entry [f] ?s0" by (rule registry_ok_shift [OF ok scan.hyps(2)])
  have d0: "deps_ok e f ?s0 []" by (simp add: deps_ok_def)
  have k0: "distinct (map fst ([] :: (string \<times> nat) list))" by simp
  note F = forEachImport_facts [OF scan.hyps(6) ok0 d0 k0]
  note f1 = F [THEN conjunct1]
  note f2 = F [THEN conjunct2, THEN conjunct1]
  note f3 = F [THEN conjunct2, THEN conjunct2, THEN conjunct1]
  have "module_ok e s' m" if "m \<in> set (modules s')" for m
  proof -
    from that f3 have m: "m \<in> set (modules s)" by simp
    with mods have a: "module_ok e ?s0 m" by (simp add: module_ok_def deps_ok_def)
    from registry_ok_modules_dom [OF ok m] have b: "file_m m \<in> dom (moduleToId ?s0)" by simp
    show ?thesis by (rule module_ok_mono [OF a f2 b])
  qed
  with f1 show ?case by blast
next
  case (step s f rest m s')
  let ?s0 = "s\<lparr>files := rest\<rparr>"
  from step.IH have ok: "registry_ok entry [] s" and mods: "\<forall>m \<in> set (modules s). module_ok e s m"
    by simp_all
  have ok0: "registry_ok entry [f] ?s0" by (rule registry_ok_shift [OF ok step.hyps(2)])
  note C = compile_facts [OF step.hyps(4) ok0]
  note c2 = conjunct2 and c1 = conjunct1
  note f1 = C [THEN c1]
  note f2 = C [THEN c2, THEN c1]
  note f3 = C [THEN c2, THEN c2, THEN c1]
  note f6 = C [THEN c2, THEN c2, THEN c2, THEN c2, THEN c2, THEN c1]
  note f7 = C [THEN c2, THEN c2, THEN c2, THEN c2, THEN c2, THEN c2, THEN c1]
  note f8 = C [THEN c2, THEN c2, THEN c2, THEN c2, THEN c2, THEN c2, THEN c2, THEN c1]
  note f9 = C [THEN c2, THEN c2, THEN c2, THEN c2, THEN c2, THEN c2, THEN c2, THEN c2, THEN c1]
  note f10 = C [THEN c2, THEN c2, THEN c2, THEN c2, THEN c2, THEN c2, THEN c2, THEN c2, THEN c2, THEN c1]
  note f11 = C [THEN c2, THEN c2, THEN c2, THEN c2, THEN c2, THEN c2, THEN c2, THEN c2, THEN c2, THEN c2]
  let ?s1 = "s'\<lparr>modules := modules s' @ [m]\<rparr>"
  have ok1: "registry_ok entry [] ?s1" by (rule registry_ok_push [OF f1 f6])
  have fdom: "f \<in> dom (moduleToId ?s0)"
    using ok0 by (simp add: registry_ok_def discovered_def del: upt_Suc)
  with f2 have idf: "moduleToId s' f = moduleToId ?s0 f" by (simp add: map_le_def)
  have new: "module_ok e ?s1 m"
    using f6 f7 f8 f9 f10 f11 idf by (simp add: module_ok_def deps_ok_def)
  have old: "module_ok e ?s1 m'" if "m' \<in> set (modules s)" for m'
  proof -
    from that mods have a: "module_ok e ?s0 m'" by (simp add: module_ok_def deps_ok_def)
    from registry_ok_modules_dom [OF ok that] have b: "file_m m' \<in> dom (moduleToId ?s0)" by simp
    have "module_ok e s' m'" by (rule module_ok_mono [OF a f2 b])
    then show ?thesis by (simp add: module_ok_def deps_ok_def)
  qed
  have "\<forall>m' \<in> set (modules ?s1). module_ok e ?s1 m'"
    using new old f3 by auto
  with ok1 show ?case by blast
qed

lemma targets_nonempty: "g \<in> targets e f ts \<Longrightarrow> g \<noteq> []"
  by (auto simp: targets_def dest: resolveDep_nonempty)

lemma edges_nonempty: "(f, g) \<in> importEdges e \<Longrightarrow> g \<noteq> []"
  by (auto simp: importEdges_def dest: resolveDep_nonempty)

text \<open>What one file adds to the closure, whether all its imports were scanned or only some.\<close>

lemma grow_closure:
  assumes ok: "registry_ok entry [] s"
    and files: "files s = f # rest" and ne: "f \<noteq> []"
    and nonempty: "[] \<notin> set (files s)"
    and reach: "\<forall>p \<in> dom (moduleToId s). (entry, p) \<in> (importEdges e)\<^sup>*"
    and closed: "\<forall>m \<in> set (modules s). \<forall>g. (file_m m, g) \<in> importEdges e \<longrightarrow> g \<in> dom (moduleToId s)"
    and dm: "dom (moduleToId s') = dom (moduleToId s) \<union> T"
    and fl: "\<exists>new. files s' = rest @ new \<and> set new \<subseteq> T"
    and T: "T \<subseteq> {g. (f, g) \<in> importEdges e}"
    and md: "modules s' = modules s"
  shows "[] \<notin> set ([f] @ files s')
     \<and> (\<forall>p \<in> dom (moduleToId s'). (entry, p) \<in> (importEdges e)\<^sup>*)
     \<and> (\<forall>m \<in> set (modules s'). \<forall>g. (file_m m, g) \<in> importEdges e \<longrightarrow> g \<in> dom (moduleToId s'))"
proof -
  from fl obtain new where new: "files s' = rest @ new" "set new \<subseteq> T" by blast
  have "[] \<notin> set new"
    using new(2) T edges_nonempty by blast
  with nonempty files ne have 1: "[] \<notin> set ([f] @ files s')"
    by (auto simp: new(1))
  have "f \<in> dom (moduleToId s)"
    using ok files by (simp add: registry_ok_def discovered_def del: upt_Suc)
  with reach have rf: "(entry, f) \<in> (importEdges e)\<^sup>*" by blast
  have 2: "(entry, p) \<in> (importEdges e)\<^sup>*" if "p \<in> dom (moduleToId s')" for p
  proof (cases "p \<in> dom (moduleToId s)")
    case True
    with reach show ?thesis by blast
  next
    case False
    with that have "p \<in> T" by (simp only: dm Un_iff simp_thms)
    with T have "(f, p) \<in> importEdges e" by blast
    with rf show ?thesis by (rule rtrancl_into_rtrancl)
  qed
  have 3: "g \<in> dom (moduleToId s')" if "m \<in> set (modules s')" "(file_m m, g) \<in> importEdges e" for m g
  proof -
    from that(1) have "m \<in> set (modules s)" by (simp add: md)
    with closed that(2) have "g \<in> dom (moduleToId s)" by blast
    then show ?thesis by (simp only: dm Un_iff simp_thms)
  qed
  show ?thesis
  proof (intro conjI ballI allI impI)
    show "[] \<notin> set ([f] @ files s')" by (rule 1)
    show "(entry, p) \<in> (importEdges e)\<^sup>*" if "p \<in> dom (moduleToId s')" for p
      by (rule 2 [OF that])
    show "g \<in> dom (moduleToId s')"
      if "m \<in> set (modules s')" "(file_m m, g) \<in> importEdges e" for m g
      by (rule 3 [OF that])
  qed
qed

lemma visited_closure:
  "visited e entry cur s \<Longrightarrow> entry \<noteq> [] \<Longrightarrow>
   [] \<notin> set (cur @ files s)
   \<and> (\<forall>p \<in> dom (moduleToId s). (entry, p) \<in> (importEdges e)\<^sup>*)
   \<and> (\<forall>m \<in> set (modules s). \<forall>g. (file_m m, g) \<in> importEdges e \<longrightarrow> g \<in> dom (moduleToId s))"
proof (induction rule: visited.induct)
  case init
  then show ?case by (auto simp: initState_def split: if_splits)
next
  case (scan s f rest content ts1 ts2 ds s')
  let ?s0 = "s\<lparr>files := rest\<rparr>"
  from visited_registry [OF scan.hyps(1)] have ok: "registry_ok entry [] s" by simp
  have ok0: "registry_ok entry [f] ?s0" by (rule registry_ok_shift [OF ok scan.hyps(2)])
  have d0: "deps_ok e f ?s0 []" by (simp add: deps_ok_def)
  have k0: "distinct (map fst ([] :: (string \<times> nat) list))" by simp
  note F = forEachImport_facts [OF scan.hyps(6) ok0 d0 k0]
  note c2 = conjunct2 and c1 = conjunct1
  note f3 = F [THEN c2, THEN c2, THEN c1]
  note f4 = F [THEN c2, THEN c2, THEN c2, THEN c1]
  note f5 = F [THEN c2, THEN c2, THEN c2, THEN c2, THEN c1]
  from scan.IH [OF scan.prems]
  have i1: "[] \<notin> set (files s)"
    and i2: "\<forall>p \<in> dom (moduleToId s). (entry, p) \<in> (importEdges e)\<^sup>*"
    and i3: "\<forall>m \<in> set (modules s). \<forall>g. (file_m m, g) \<in> importEdges e \<longrightarrow> g \<in> dom (moduleToId s)"
    by simp_all
  have T: "targets e f ts1 \<subseteq> {g. (f, g) \<in> importEdges e}"
    using forEachImport_prefix_targets [of e f ts1 ts2] targets_edges [OF scan.hyps(4)]
    by (simp add: scan.hyps(5))
  have dm: "dom (moduleToId s') = dom (moduleToId s) \<union> targets e f ts1"
    using f4 by simp
  have fl: "\<exists>new. files s' = rest @ new \<and> set new \<subseteq> targets e f ts1"
    using f5 by simp
  have md: "modules s' = modules s" using f3 by simp
  show ?case
    by (rule grow_closure [OF ok scan.hyps(2,3) i1 i2 i3 dm fl T md])
next
  case (step s f rest m s')
  let ?s0 = "s\<lparr>files := rest\<rparr>"
  from visited_registry [OF step.hyps(1)] have ok: "registry_ok entry [] s" by simp
  have ok0: "registry_ok entry [f] ?s0" by (rule registry_ok_shift [OF ok step.hyps(2)])
  note C = compile_facts [OF step.hyps(4) ok0]
  note c2 = conjunct2 and c1 = conjunct1
  note f3 = C [THEN c2, THEN c2, THEN c1]
  note f4 = C [THEN c2, THEN c2, THEN c2, THEN c1]
  note f5 = C [THEN c2, THEN c2, THEN c2, THEN c2, THEN c1]
  note f6 = C [THEN c2, THEN c2, THEN c2, THEN c2, THEN c2, THEN c1]
  from step.IH [OF step.prems]
  have i1: "[] \<notin> set (files s)"
    and i2: "\<forall>p \<in> dom (moduleToId s). (entry, p) \<in> (importEdges e)\<^sup>*"
    and i3: "\<forall>m \<in> set (modules s). \<forall>g. (file_m m, g) \<in> importEdges e \<longrightarrow> g \<in> dom (moduleToId s)"
    by simp_all
  have T: "{g. (f, g) \<in> importEdges e} \<subseteq> {g. (f, g) \<in> importEdges e}" by simp
  have dm: "dom (moduleToId s') = dom (moduleToId s) \<union> {g. (f, g) \<in> importEdges e}"
    using f4 by simp
  have fl: "\<exists>new. files s' = rest @ new \<and> set new \<subseteq> {g. (f, g) \<in> importEdges e}"
    using f5 by simp
  have md: "modules s' = modules s" using f3 by simp
  note G = grow_closure [OF ok step.hyps(2,3) i1 i2 i3 dm fl T md]
  let ?s1 = "s'\<lparr>modules := modules s' @ [m]\<rparr>"
  have 1: "[] \<notin> set ([] @ files ?s1)" using G by simp
  have 2: "\<forall>p \<in> dom (moduleToId ?s1). (entry, p) \<in> (importEdges e)\<^sup>*"
    using G by simp
  have 3: "g \<in> dom (moduleToId ?s1)"
    if "m' \<in> set (modules ?s1)" "(file_m m', g) \<in> importEdges e" for m' g
  proof (cases "m' = m")
    case True
    with that(2) f6 have "(f, g) \<in> importEdges e" by simp
    then show ?thesis by (simp add: dm)
  next
    case False
    with that(1) have "m' \<in> set (modules s')" by simp
    with G that(2) show ?thesis by simp
  qed
  show ?case
  proof (intro conjI ballI allI impI)
    show "[] \<notin> set ([] @ files ?s1)" by (rule 1)
    show "(entry, p) \<in> (importEdges e)\<^sup>*" if "p \<in> dom (moduleToId ?s1)" for p
      using 2 that by blast
    show "g \<in> dom (moduleToId ?s1)"
      if "m' \<in> set (modules ?s1)" "(file_m m', g) \<in> importEdges e" for m' g
      by (rule 3 [OF that])
  qed
qed

lemma visited_build_inv:
  "visited e entry cur s \<Longrightarrow> entry \<noteq> [] \<Longrightarrow> build_inv e entry cur s"
  using visited_registry [of e entry cur s] visited_closure [of e entry cur s]
  by (simp add: build_inv_def)

text \<open>A build that ends well ends in a visited state with an empty worklist.\<close>

lemma buildLoop_visited:
  assumes run: "buildLoop e s = Some (Inr s')" and v: "visited e entry [] s" and ne: "entry \<noteq> []"
  shows "visited e entry [] s' \<and> files s' = []"
proof -
  have "\<forall>s'. Inr s' = r \<longrightarrow> visited e entry [] s \<longrightarrow> visited e entry [] s' \<and> files s' = []"
    if "buildLoop e s = Some r" for r
  proof (rule buildLoop.raw_induct
      [where P = "\<lambda>e s r. \<forall>s'. Inr s' = r \<longrightarrow> visited e entry [] s \<longrightarrow>
                     visited e entry [] s' \<and> files s' = []", OF _ that])
    fix loop :: "env \<Rightarrow> bstate \<Rightarrow> (error + bstate) option" and e s r
    assume IH: "\<And>e s r. loop e s = Some r \<Longrightarrow>
        \<forall>s'. Inr s' = r \<longrightarrow> visited e entry [] s \<longrightarrow> visited e entry [] s' \<and> files s' = []"
      and eq: "(case files s of
          [] \<Rightarrow> Some (Inr s)
        | file0 # rest \<Rightarrow>
            if file0 = [] then Some (Inr (s\<lparr>files := rest\<rparr>))
            else (case compile e file0 (s\<lparr>files := rest\<rparr>) of
                    None \<Rightarrow> None
                  | Some (Inl err) \<Rightarrow> Some (Inl err)
                  | Some (Inr (m, s')) \<Rightarrow> loop e (s'\<lparr>modules := modules s' @ [m]\<rparr>))) = Some r"
    show "\<forall>s'. Inr s' = r \<longrightarrow> visited e entry [] s \<longrightarrow> visited e entry [] s' \<and> files s' = []"
    proof (intro allI impI)
      fix s'
      assume r: "Inr s' = r" and vs: "visited e entry [] s"
      show "visited e entry [] s' \<and> files s' = []"
      proof (cases "files s")
        case Nil
        with eq r have "s' = s" by auto
        with vs Nil show ?thesis by simp
      next
        case (Cons file0 rest)
        from visited_closure [OF vs ne] Cons have f0: "file0 \<noteq> []" by auto
        from eq Cons f0 r obtain m s1 where
          c: "compile e file0 (s\<lparr>files := rest\<rparr>) = Some (Inr (m, s1))"
          and l: "loop e (s1\<lparr>modules := modules s1 @ [m]\<rparr>) = Some r"
          by (cases "compile e file0 (s\<lparr>files := rest\<rparr>)") (auto split: sum.splits)
        have "visited e entry [] (s1\<lparr>modules := modules s1 @ [m]\<rparr>)"
          by (rule visited.step [OF vs Cons f0 c])
        with IH [OF l] r show ?thesis by blast
      qed
    qed
  qed
  from this [OF run] v show ?thesis by blast
qed

lemma build_visited:
  assumes "build e entry = Some (Inr s)" "entry \<noteq> []"
  shows "visited e entry [] s \<and> files s = []"
  using buildLoop_visited [OF assms(1) [unfolded build_def] visited.init assms(2)] .

lemma final_modules:
  assumes "visited e entry [] s" "files s = []"
  shows "dom (moduleToId s) = set (map file_m (modules s))"
    and "distinct (map file_m (modules s))"
    and "entry \<in> set (map file_m (modules s))"
proof -
  from visited_registry [OF assms(1)] have ok: "registry_ok entry [] s" by simp
  have d: "discovered s [] = map file_m (modules s)"
    by (simp add: discovered_def assms(2))
  from ok show "dom (moduleToId s) = set (map file_m (modules s))"
    by (simp add: registry_ok_def d del: upt_Suc)
  from registry_ok_distinct [OF ok] show "distinct (map file_m (modules s))"
    by (simp only: d)
  from registry_ok_nonempty [OF ok] ok show "entry \<in> set (map file_m (modules s))"
    unfolding d registry_ok_def by (metis hd_in_set)
qed

lemma registry_ok_entry:
  assumes "registry_ok entry cur s"
  shows "moduleToId s entry = Some 0"
proof -
  from registry_ok_nonempty [OF assms] obtain x xs where d: "discovered s cur = x # xs"
    by (cases "discovered s cur") auto
  from assms have "map (moduleToId s) (discovered s cur) = map Some [0..<Suc (moduleId s)]"
    and "hd (discovered s cur) = entry"
    by (simp_all add: registry_ok_def)
  then show ?thesis
    by (simp add: d upt_conv_Cons del: upt_Suc)
qed

lemma registry_ok_inj:
  assumes "registry_ok entry cur s"
  shows "inj_on (moduleToId s) (dom (moduleToId s))"
proof -
  from assms have m: "map (moduleToId s) (discovered s cur) = map Some [0..<Suc (moduleId s)]"
    and d: "dom (moduleToId s) = set (discovered s cur)"
    by (simp_all add: registry_ok_def)
  have "distinct (map Some [0..<Suc (moduleId s)])"
    by (simp del: upt_Suc add: distinct_map)
  with m have "distinct (map (moduleToId s) (discovered s cur))" by simp
  then show ?thesis by (simp add: distinct_map d)
qed

lemma registry_ok_ran:
  assumes "registry_ok entry cur s"
  shows "ran (moduleToId s) = {0..moduleId s}"
proof -
  from assms have m: "map (moduleToId s) (discovered s cur) = map Some [0..<Suc (moduleId s)]"
    and d: "dom (moduleToId s) = set (discovered s cur)"
    by (simp_all add: registry_ok_def)
  from m have "set (map (moduleToId s) (discovered s cur)) = set (map Some [0..<Suc (moduleId s)])"
    by (rule arg_cong)
  then have img: "moduleToId s ` dom (moduleToId s) = Some ` {0..moduleId s}"
    by (simp add: d atLeastLessThanSuc_atLeastAtMost del: upt_Suc)
  show ?thesis
  proof (intro set_eqI iffI)
    fix v assume "v \<in> ran (moduleToId s)"
    then obtain k where k: "moduleToId s k = Some v" by (auto simp: ran_def)
    then have "Some v \<in> moduleToId s ` dom (moduleToId s)" by (force simp: dom_def)
    with img show "v \<in> {0..moduleId s}" by auto
  next
    fix v assume "v \<in> {0..moduleId s}"
    then have "Some v \<in> moduleToId s ` dom (moduleToId s)" by (simp only: img) blast
    then show "v \<in> ran (moduleToId s)" by (auto simp: ran_def)
  qed
qed

lemma deps_ok_edge:
  assumes "module_ok e s m" "(dep, depID) \<in> set (deps m)"
    "resolveDep e dep (file_m m) = Some (Inr g)"
  shows "moduleToId s g = Some depID"
  using assms by (fastforce simp: module_ok_def deps_ok_def)

lemma map_upt_split:
  assumes "map f (xs @ ys) = map Some [0..<n]"
  shows "map f xs = map Some [0..<length xs] \<and> map f ys = map Some [length xs..<n]"
proof -
  from assms have "length (map f (xs @ ys)) = length (map Some [0..<n])" by (rule arg_cong)
  then have len: "length xs + length ys = n" by simp
  from assms have "take (length xs) (map f (xs @ ys)) = take (length xs) (map Some [0..<n])"
    by (rule arg_cong)
  then have 1: "map f xs = map Some [0..<length xs]"
    using len by (simp add: take_map del: upt_Suc)
  from assms have "drop (length xs) (map f (xs @ ys)) = drop (length xs) (map Some [0..<n])"
    by (rule arg_cong)
  then have 2: "map f ys = map Some [length xs..<n]"
    by (simp add: drop_map del: upt_Suc)
  from 1 2 show ?thesis ..
qed

lemma forEachImport_files:
  "forEachImport e f ts ds s = Some (Inr (ds', s')) \<Longrightarrow> \<exists>new. files s' = files s @ new"
proof (induction ts arbitrary: ds s)
  case Nil
  then show ?case by simp
next
  case (Cons t ts)
  from Cons.prems obtain dep where dep: "JSON_parse t = Some dep"
    by (cases "JSON_parse t") auto
  from Cons.prems dep obtain g where g: "resolveDep e dep f = Some (Inr g)"
    by (cases "resolveDep e dep f") (auto split: sum.splits)
  obtain i s1 where reg: "register g s = (i, s1)" by (cases "register g s")
  from Cons.prems dep g reg
  have rec: "forEachImport e f ts (map_set ds dep i) s1 = Some (Inr (ds', s'))" by simp
  from register_facts(5) [OF reg] obtain new1 where "files s1 = files s @ new1" by blast
  moreover from Cons.IH [OF rec] obtain new2 where "files s' = files s1 @ new2" by blast
  ultimately show ?case by simp
qed

lemma compile_files:
  assumes "compile e f s = Some (Inr (m, s'))"
  shows "file_m m = f \<and> (\<exists>new. files s' = files s @ new)"
proof -
  from assms obtain content where content: "fs e f = Some (File content)"
    by (cases "fs e f") (auto simp: compile_def split: node.splits)
  from assms content obtain ds where
    fe: "forEachImport e f (importSpecifiers e content) [] s = Some (Inr (ds, s'))"
    and m: "file_m m = f"
    by (cases "forEachImport e f (importSpecifiers e content) [] s")
      (auto simp: compile_def split: sum.splits)
  from forEachImport_files [OF fe] m show ?thesis by simp
qed

lemma visited_order:
  assumes "visited e entry cur s"
  shows "map id_m (modules s) = map Some [0..<length (modules s)]
     \<and> map (moduleToId s) (cur @ files s) = map Some [length (modules s)..<Suc (moduleId s)]"
proof -
  from visited_registry [OF assms] have ok: "registry_ok entry cur s"
    and mods: "\<forall>m \<in> set (modules s). module_ok e s m"
    by simp_all
  from ok have "map (moduleToId s) (map file_m (modules s) @ (cur @ files s))
      = map Some [0..<Suc (moduleId s)]"
    by (simp add: registry_ok_def discovered_def del: upt_Suc)
  from map_upt_split [OF this]
  have 1: "map (moduleToId s) (map file_m (modules s)) = map Some [0..<length (modules s)]"
    and 2: "map (moduleToId s) (cur @ files s) = map Some [length (modules s)..<Suc (moduleId s)]"
    by simp_all
  have "map id_m (modules s) = map (moduleToId s) (map file_m (modules s))"
    using mods by (simp add: module_ok_def)
  with 1 2 show ?thesis by simp
qed

lemma generateModule_key:
  assumes "map id_m ms = map Some [0..<length ms]" "k < length ms"
  shows "generateModule (ms ! k) =
     [show_nat k @ '': ['', ''function (require, module, exports) {'', transpiled (ms ! k),
      ''}, {''] @ map generateDep (deps (ms ! k)) @ [''}'', ''],'']"
proof -
  from assms(1) have "map id_m ms ! k = map Some [0..<length ms] ! k" by (rule arg_cong)
  with assms(2) have "id_m (ms ! k) = Some k" by simp
  then show ?thesis by (simp add: generateModule_def show_id_def)
qed


section \<open>The module set of a build\<close>

text \<open>
  Claim C1.  The entry file is what \<^verbatim>\<open>localModulePath\<close> makes of the input.  When the
  build of it ends without failure, the files of the modules it leaves (the modules
  \<^verbatim>\<open>generate\<close> then prints) are pairwise different, and they are exactly the paths that
  can be reached from the entry file along import edges: each reachable file once, and
  no other file.
\<close>

theorem build_closure:
  assumes "localModulePath e inp None = Inr entryFile"
    and "build e entryFile = Some (Inr s)"
  shows "distinct (map file_m (modules s))
     \<and> set (map file_m (modules s)) = {p. (entryFile, p) \<in> (importEdges e)\<^sup>*}"
proof -
  from assms(1) have ne: "entryFile \<noteq> []" by (rule localModulePath_nonempty)
  from build_visited [OF assms(2) ne] have v: "visited e entryFile [] s" and f: "files s = []"
    by simp_all
  note fm = final_modules [OF v f]
  from visited_closure [OF v ne]
  have reach: "\<forall>p \<in> dom (moduleToId s). (entryFile, p) \<in> (importEdges e)\<^sup>*"
    and closed: "\<forall>m \<in> set (modules s). \<forall>g. (file_m m, g) \<in> importEdges e \<longrightarrow> g \<in> dom (moduleToId s)"
    by simp_all
  have sub: "set (map file_m (modules s)) \<subseteq> {p. (entryFile, p) \<in> (importEdges e)\<^sup>*}"
    using reach by (simp only: fm(1) [symmetric]) blast
  have "p \<in> set (map file_m (modules s))" if "(entryFile, p) \<in> (importEdges e)\<^sup>*" for p
    using that
  proof (induction rule: rtrancl_induct)
    case base
    show ?case by (rule fm(3))
  next
    case (step y z)
    from step.IH obtain m where m: "m \<in> set (modules s)" "file_m m = y" by auto
    with closed step.hyps(2) have "z \<in> dom (moduleToId s)" by blast
    then show ?case by (simp only: fm(1))
  qed
  with sub have "set (map file_m (modules s)) = {p. (entryFile, p) \<in> (importEdges e)\<^sup>*}"
    by blast
  with fm(2) show ?thesis by simp
qed

theorem build_closure_witness:
  "\<exists>s. build demoEnv ''/p/a.ts'' = Some (Inr s)
     \<and> map file_m (modules s)
         = [''/p/a.ts'', ''/p/b.ts'', ''/p/c.ts'', ''/p/d/index.ts'',
            ''/p/node_modules/left.js'', ''/p/node_modules/pk/lib/main.js'']
     \<and> {p. (''/p/a.ts'', p) \<in> (importEdges demoEnv)\<^sup>*}
         = {''/p/a.ts'', ''/p/b.ts'', ''/p/c.ts'', ''/p/d/index.ts'',
            ''/p/node_modules/left.js'', ''/p/node_modules/pk/lib/main.js''}"
proof -
  have l: "localModulePath demoEnv ''a'' None = Inr ''/p/a.ts''"
    by code_simp
  have "map_option (map_sum id (\<lambda>s. map file_m (modules s))) (build demoEnv ''/p/a.ts'')
        = Some (Inr [''/p/a.ts'', ''/p/b.ts'', ''/p/c.ts'', ''/p/d/index.ts'',
            ''/p/node_modules/left.js'', ''/p/node_modules/pk/lib/main.js''])"
    by code_simp
  then obtain s where s: "build demoEnv ''/p/a.ts'' = Some (Inr s)"
    "map file_m (modules s) = [''/p/a.ts'', ''/p/b.ts'', ''/p/c.ts'', ''/p/d/index.ts'',
            ''/p/node_modules/left.js'', ''/p/node_modules/pk/lib/main.js'']"
    by (cases "build demoEnv ''/p/a.ts''") (auto simp: map_sum_def split: sum.splits)
  from build_closure [OF l s(1)] s show ?thesis
    by (intro exI [of _ s]) (simp only: list.set simp_thms)
qed


section \<open>The registry\<close>

text \<open>
  Claim C2.  In every state a build passes through, between two compilations and
  inside one, the registry maps the entry file to 0; read along the paths in the order
  of their discovery it gives 0, 1, 2, ... up to the counter \<^verbatim>\<open>moduleId\<close>, and it knows
  exactly these paths; so it is one-to-one, and its identities are exactly the numbers
  from 0 to the counter, none skipped and none used twice.  For any two import edges
  recorded in the dependency tables, each carries the identity the registry gives to
  the path its specifier resolves to, and the two identities are equal exactly when the
  two paths are.
\<close>

theorem registry_bijection:
  assumes "visited e entry cur s"
  shows "moduleToId s entry = Some 0
     \<and> map (moduleToId s) (discovered s cur) = map Some [0..<Suc (moduleId s)]
     \<and> dom (moduleToId s) = set (discovered s cur)
     \<and> inj_on (moduleToId s) (dom (moduleToId s))
     \<and> ran (moduleToId s) = {0..moduleId s}
     \<and> (\<forall>m1 \<in> set (modules s). \<forall>m2 \<in> set (modules s). \<forall>dep1 id1 dep2 id2 g1 g2.
           (dep1, id1) \<in> set (deps m1) \<and> (dep2, id2) \<in> set (deps m2)
           \<and> resolveDep e dep1 (file_m m1) = Some (Inr g1)
           \<and> resolveDep e dep2 (file_m m2) = Some (Inr g2)
           \<longrightarrow> moduleToId s g1 = Some id1 \<and> moduleToId s g2 = Some id2
               \<and> (id1 = id2 \<longleftrightarrow> g1 = g2))"
proof -
  from visited_registry [OF assms] have ok: "registry_ok entry cur s"
    and mods: "\<forall>m \<in> set (modules s). module_ok e s m"
    by simp_all
  have edges: "moduleToId s g1 = Some id1 \<and> moduleToId s g2 = Some id2 \<and> (id1 = id2 \<longleftrightarrow> g1 = g2)"
    if "m1 \<in> set (modules s)" "m2 \<in> set (modules s)"
      "(dep1, id1) \<in> set (deps m1)" "(dep2, id2) \<in> set (deps m2)"
      "resolveDep e dep1 (file_m m1) = Some (Inr g1)"
      "resolveDep e dep2 (file_m m2) = Some (Inr g2)"
    for m1 m2 dep1 id1 dep2 id2 g1 g2
  proof -
    from mods that(1) have "module_ok e s m1" by blast
    from deps_ok_edge [OF this that(3,5)] have 1: "moduleToId s g1 = Some id1" .
    from mods that(2) have "module_ok e s m2" by blast
    from deps_ok_edge [OF this that(4,6)] have 2: "moduleToId s g2 = Some id2" .
    from 1 2 registry_ok_inj [OF ok] have "id1 = id2 \<longleftrightarrow> g1 = g2"
      by (auto simp: inj_on_def dom_def)
    with 1 2 show ?thesis by simp
  qed
  from ok have m: "map (moduleToId s) (discovered s cur) = map Some [0..<Suc (moduleId s)]"
    and d: "dom (moduleToId s) = set (discovered s cur)"
    by (simp_all add: registry_ok_def)
  show ?thesis
  proof (intro conjI ballI allI impI)
    show "moduleToId s entry = Some 0" by (rule registry_ok_entry [OF ok])
    show "map (moduleToId s) (discovered s cur) = map Some [0..<Suc (moduleId s)]" by (rule m)
    show "dom (moduleToId s) = set (discovered s cur)" by (rule d)
    show "inj_on (moduleToId s) (dom (moduleToId s))" by (rule registry_ok_inj [OF ok])
    show "ran (moduleToId s) = {0..moduleId s}" by (rule registry_ok_ran [OF ok])
  next
    fix m1 m2 dep1 id1 dep2 id2 g1 g2
    assume "m1 \<in> set (modules s)" "m2 \<in> set (modules s)"
      and h: "(dep1, id1) \<in> set (deps m1) \<and> (dep2, id2) \<in> set (deps m2)
           \<and> resolveDep e dep1 (file_m m1) = Some (Inr g1)
           \<and> resolveDep e dep2 (file_m m2) = Some (Inr g2)"
    with edges [of m1 m2 dep1 id1 dep2 id2 g1 g2]
    show "moduleToId s g1 = Some id1" "moduleToId s g2 = Some id2" "id1 = id2 \<longleftrightarrow> g1 = g2"
      by simp_all
  qed
qed


theorem registry_bijection_witness:
  "(\<exists>s. visited demoEnv ''/p/a.ts'' [] s
      \<and> moduleId s = 5 \<and> files s = []
      \<and> moduleToId s ''/p/a.ts'' = Some 0
      \<and> inj_on (moduleToId s) (dom (moduleToId s))
      \<and> ran (moduleToId s) = {0..5})
   \<and> (\<exists>s. visited demoEnv ''/p/a.ts'' [''/p/a.ts''] s
      \<and> moduleId s = 1 \<and> files s = [''/p/b.ts'']
      \<and> map (moduleToId s) [''/p/a.ts'', ''/p/b.ts''] = [Some 0, Some 1]
      \<and> dom (moduleToId s) = {''/p/a.ts'', ''/p/b.ts''})"
proof -
  have "map_option (map_sum id (\<lambda>s. (moduleId s, files s))) (build demoEnv ''/p/a.ts'')
        = Some (Inr (5, []))"
    by code_simp
  then obtain s where s: "build demoEnv ''/p/a.ts'' = Some (Inr s)" "moduleId s = 5" "files s = []"
    by (cases "build demoEnv ''/p/a.ts''") (auto simp: map_sum_def split: sum.splits)
  have v: "visited demoEnv ''/p/a.ts'' [] s"
    using build_visited [OF s(1)] by simp
  note R = registry_bijection [OF v, unfolded s(2)]
  note c1 = conjunct1 and c2 = conjunct2
  have 1: "moduleToId s ''/p/a.ts'' = Some 0 \<and> inj_on (moduleToId s) (dom (moduleToId s))
      \<and> ran (moduleToId s) = {0..5}"
    by (intro conjI) (rule R [THEN c1] R [THEN c2, THEN c2, THEN c2, THEN c1]
        R [THEN c2, THEN c2, THEN c2, THEN c2, THEN c1])+
  have "map_option (map_sum id (\<lambda>(ds, s). (moduleId s, files s, modules s)))
          (forEachImport demoEnv ''/p/a.ts'' [dq ''./b''] [] (initState ''/p/a.ts'' \<lparr>files := []\<rparr>))
        = Some (Inr (1, [''/p/b.ts''], []))"
    by code_simp
  then obtain ds t where t:
    "forEachImport demoEnv ''/p/a.ts'' [dq ''./b''] [] (initState ''/p/a.ts'' \<lparr>files := []\<rparr>)
       = Some (Inr (ds, t))"
    "moduleId t = 1" "files t = [''/p/b.ts'']" "modules t = []"
    by (cases "forEachImport demoEnv ''/p/a.ts'' [dq ''./b''] [] (initState ''/p/a.ts'' \<lparr>files := []\<rparr>)")
      (auto simp: map_sum_def split: sum.splits)
  have f: "files (initState ''/p/a.ts'') = ''/p/a.ts'' # []"
    by (simp add: initState_def)
  have c: "fs demoEnv ''/p/a.ts'' = Some (File ''A'')"
    by code_simp
  have i: "importSpecifiers demoEnv ''A'' = [dq ''./b''] @ [dq ''./c'']"
    by (simp add: demoEnv_def demoImports_def)
  have w: "visited demoEnv ''/p/a.ts'' [''/p/a.ts''] t"
    by (rule visited.scan [OF visited.init f _ c i t(1)]) simp
  note W = registry_bijection [OF w]
  have dt: "discovered t [''/p/a.ts''] = [''/p/a.ts'', ''/p/b.ts'']"
    by (simp add: discovered_def t)
  have 2: "map (moduleToId t) [''/p/a.ts'', ''/p/b.ts''] = [Some 0, Some 1]
      \<and> dom (moduleToId t) = {''/p/a.ts'', ''/p/b.ts''}"
    using W [THEN c2, THEN c1] W [THEN c2, THEN c2, THEN c1]
    unfolding dt t(2) by simp
  have A: "\<exists>s. visited demoEnv ''/p/a.ts'' [] s
      \<and> moduleId s = 5 \<and> files s = []
      \<and> moduleToId s ''/p/a.ts'' = Some 0
      \<and> inj_on (moduleToId s) (dom (moduleToId s))
      \<and> ran (moduleToId s) = {0..5}"
    by (rule exI [of _ s]) (intro conjI v s(2,3) 1 [THEN c1] 1 [THEN c2, THEN c1] 1 [THEN c2, THEN c2])
  have B: "\<exists>s. visited demoEnv ''/p/a.ts'' [''/p/a.ts''] s
      \<and> moduleId s = 1 \<and> files s = [''/p/b.ts'']
      \<and> map (moduleToId s) [''/p/a.ts'', ''/p/b.ts''] = [Some 0, Some 1]
      \<and> dom (moduleToId s) = {''/p/a.ts'', ''/p/b.ts''}"
    by (rule exI [of _ t]) (intro conjI w t(2,3) 2 [THEN c1] 2 [THEN c2])
  from A B show ?thesis by (rule conjI)
qed


section \<open>The order of the modules and the module table\<close>

text \<open>
  Claim C7.  First in, first out: in every state of the build the compiled modules
  carry the identities 0, 1, ... in this order, and the file being compiled followed by
  the worklist holds the identities that come next, in increasing order; a compilation
  only appends to the worklist.  So the loop, which takes the head of the worklist,
  always compiles the oldest path not yet compiled.  After a build without failure the
  worklist is empty, there is one module for each registered path, the module at
  position \<open>k\<close> has the identity \<open>k\<close>, its body is the transpiled content of its file and
  its dependency table leads from each specifier of the file to the identity of the
  resolved path (\<open>module_ok\<close>).  \<^verbatim>\<open>generate\<close> prints the prelude and then the modules in
  this order, the entry at position \<open>k\<close> being keyed \<open>k\<close> and holding the body inside the
  factory function followed by the dependency table.
\<close>

theorem bundle_module_table:
  assumes "localModulePath e inp None = Inr entryFile"
    and "build e entryFile = Some (Inr s)"
  shows "(\<forall>cur s'. visited e entryFile cur s' \<longrightarrow>
            map id_m (modules s') = map Some [0..<length (modules s')]
          \<and> map (moduleToId s') (cur @ files s')
              = map Some [length (modules s')..<Suc (moduleId s')])
     \<and> (\<forall>f s0 m s1. compile e f s0 = Some (Inr (m, s1)) \<longrightarrow>
            file_m m = f \<and> (\<exists>new. files s1 = files s0 @ new))
     \<and> visited e entryFile [] s \<and> files s = []
     \<and> map id_m (modules s) = map Some [0..<length (modules s)]
     \<and> distinct (map file_m (modules s))
     \<and> set (map file_m (modules s)) = dom (moduleToId s)
     \<and> (\<forall>m \<in> set (modules s). module_ok e s m)
     \<and> generate (modules s) =
          ['';(function (modules) {'', loader, ''})({''] @
          concat (map generateModule (modules s)) @ [''})'']
     \<and> (\<forall>k < length (modules s).
           generateModule (modules s ! k) =
             [show_nat k @ '': ['', ''function (require, module, exports) {'',
              transpiled (modules s ! k), ''}, {''] @
             map generateDep (deps (modules s ! k)) @ [''}'', ''],''])"
proof -
  from assms(1) have ne: "entryFile \<noteq> []" by (rule localModulePath_nonempty)
  from build_visited [OF assms(2) ne] have v: "visited e entryFile [] s" and f: "files s = []"
    by simp_all
  note fm = final_modules [OF v f]
  from visited_order [OF v] have ids: "map id_m (modules s) = map Some [0..<length (modules s)]"
    by simp
  from visited_registry [OF v] have mods: "\<forall>m \<in> set (modules s). module_ok e s m" by simp
  show ?thesis
  proof (intro conjI allI impI)
    fix cur s' assume "visited e entryFile cur s'"
    from visited_order [OF this]
    show "map id_m (modules s') = map Some [0..<length (modules s')]"
      and "map (moduleToId s') (cur @ files s')
              = map Some [length (modules s')..<Suc (moduleId s')]"
      by simp_all
  next
    fix f s0 m s1 assume "compile e f s0 = Some (Inr (m, s1))"
    from compile_files [OF this]
    show "file_m m = f" and "\<exists>new. files s1 = files s0 @ new" by simp_all
  next
    show "visited e entryFile [] s" by (rule v)
    show "files s = []" by (rule f)
    show "map id_m (modules s) = map Some [0..<length (modules s)]" by (rule ids)
    show "distinct (map file_m (modules s))" by (rule fm(2))
    show "set (map file_m (modules s)) = dom (moduleToId s)" by (rule fm(1) [symmetric])
    show "\<forall>m \<in> set (modules s). module_ok e s m" by (rule mods)
    show "generate (modules s) =
          ['';(function (modules) {'', loader, ''})({''] @
          concat (map generateModule (modules s)) @ [''})'']"
      by (simp add: generate_def)
  next
    fix k assume "k < length (modules s)"
    from generateModule_key [OF ids this]
    show "generateModule (modules s ! k) =
             [show_nat k @ '': ['', ''function (require, module, exports) {'',
              transpiled (modules s ! k), ''}, {''] @
             map generateDep (deps (modules s ! k)) @ [''}'', ''],'']" .
  qed
qed


theorem bundle_module_table_witness:
  "\<exists>s. build demoEnv ''/p/a.ts'' = Some (Inr s)
     \<and> map file_m (modules s)
         = [''/p/a.ts'', ''/p/b.ts'', ''/p/c.ts'', ''/p/d/index.ts'',
            ''/p/node_modules/left.js'', ''/p/node_modules/pk/lib/main.js'']
     \<and> map id_m (modules s) = [Some 0, Some 1, Some 2, Some 3, Some 4, Some 5]
     \<and> map deps (modules s)
         = [[(''./b'', 1), (''./c'', 2)], [(''./d'', 3), (''./a.ts'', 0), (''left'', 4)], [],
            [(''pk'', 5)], [], []]
     \<and> generateModule (modules s ! 3)
         = [''3: ['', ''function (require, module, exports) {'', ''js:D'', ''}, {'',
            dq ''pk'' @ '': 5,'', ''}'', ''],'']"
proof -
  have l: "localModulePath demoEnv ''a'' None = Inr ''/p/a.ts''"
    by code_simp
  have "map_option (map_sum id (\<lambda>s. (map file_m (modules s), map deps (modules s),
            map transpiled (modules s))))
          (build demoEnv ''/p/a.ts'')
        = Some (Inr ([''/p/a.ts'', ''/p/b.ts'', ''/p/c.ts'', ''/p/d/index.ts'',
            ''/p/node_modules/left.js'', ''/p/node_modules/pk/lib/main.js''],
            [[(''./b'', 1), (''./c'', 2)], [(''./d'', 3), (''./a.ts'', 0), (''left'', 4)], [],
            [(''pk'', 5)], [], []],
            [''js:A'', ''js:B'', ''js:C'', ''js:D'', ''js:L'', ''js:M'']))"
    by code_simp
  then obtain s where s: "build demoEnv ''/p/a.ts'' = Some (Inr s)"
    "map file_m (modules s) = [''/p/a.ts'', ''/p/b.ts'', ''/p/c.ts'', ''/p/d/index.ts'',
            ''/p/node_modules/left.js'', ''/p/node_modules/pk/lib/main.js'']"
    "map deps (modules s)
         = [[(''./b'', 1), (''./c'', 2)], [(''./d'', 3), (''./a.ts'', 0), (''left'', 4)], [],
            [(''pk'', 5)], [], []]"
    "map transpiled (modules s) = [''js:A'', ''js:B'', ''js:C'', ''js:D'', ''js:L'', ''js:M'']"
    by (cases "build demoEnv ''/p/a.ts''") (auto simp: map_sum_def split: sum.splits)
  from s(2) have "length (map file_m (modules s)) = 6" by simp
  then have len: "length (modules s) = 6" by simp
  note T = bundle_module_table [OF l s(1)]
  note c1 = conjunct1 and c2 = conjunct2
  note ids = T [THEN c2, THEN c2, THEN c2, THEN c2, THEN c1, unfolded len]
  note gen = T [THEN c2, THEN c2, THEN c2, THEN c2, THEN c2, THEN c2, THEN c2, THEN c2, THEN c2,
      unfolded len, rule_format, of 3]
  from s(3) have "map deps (modules s) ! 3 = [(''pk'', 5)]" by simp
  then have d3: "deps (modules s ! 3) = [(''pk'', 5)]" by (simp add: len)
  from s(4) have "map transpiled (modules s) ! 3 = ''js:D''" by simp
  then have t3: "transpiled (modules s ! 3) = ''js:D''" by (simp add: len)
  have sn: "show_nat 3 = ''3''" "show_nat 5 = ''5''" by code_simp+
  have g3: "generateModule (modules s ! 3)
         = [''3: ['', ''function (require, module, exports) {'', ''js:D'', ''}, {'',
            dq ''pk'' @ '': 5,'', ''}'', ''],'']"
    using gen by (simp add: d3 t3 sn generateDep_def JSON_stringify_def json_escape_def dq_def)
  have i: "map id_m (modules s) = [Some 0, Some 1, Some 2, Some 3, Some 4, Some 5]"
    using ids by (simp add: upt_conv_Cons)
  show ?thesis
    by (rule exI [of _ s]) (intro conjI s(1,2,3) i g3)
qed


section \<open>Facts about the loader\<close>

lemma extends_refl: "extends st st"
  by (simp add: extends_def)

lemma extends_trans: "extends a b \<Longrightarrow> extends b c \<Longrightarrow> extends a c"
  unfolding extends_def
  by (elim conjE exE, intro conjI) (auto intro: map_le_trans)

lemma extends_required:
  "extends st (st\<lparr>required := required st @ xs\<rparr>)"
  by (simp add: extends_def)

lemma extends_alloc:
  "extends st (st\<lparr>nextObj := nextObj st + 1\<rparr>)"
  by (simp add: extends_def)

lemma extends_cache:
  "executedModules st k = None \<Longrightarrow>
   extends st (st\<lparr>nextObj := nextObj st + 1, executedModules := (executedModules st)(k \<mapsto> a)\<rparr>)"
  by (auto simp: extends_def map_le_def)

lemma extends_invoke:
  "extends st (st\<lparr>invoked := invoked st @ xs\<rparr>)"
  by (simp add: extends_def)

text \<open>The partial-correctness facts of a factory, from those of the nested calls.\<close>

lemma runFactory_extends:
  assumes E: "\<And>ident st r st'. executeModule n tab ident st = Some (r, st') \<Longrightarrow> extends st st'"
  shows "runFactory n tab ident ds cmds exports st = Some (r, st') \<Longrightarrow> extends st st'"
proof (induction cmds arbitrary: exports st)
  case Nil
  then show ?case by (simp add: extends_refl)
next
  case (Cons c cmds)
  show ?case
  proof (cases c)
    case (Require path)
    from Cons.prems Require obtain r1 st1 where
      e: "executeModule n tab (depLookup ds path) st = Some (r1, st1)"
      by (cases "executeModule n tab (depLookup ds path) st") auto
    show ?thesis
    proof (cases r1)
      case (Normal obj)
      with Cons.prems Require e
      have "runFactory n tab ident ds cmds exports
              (st1\<lparr>required := required st1 @ [(ident, path, obj)]\<rparr>) = Some (r, st')"
        by simp
      from Cons.IH [OF this] extends_required [of st1] E [OF e] show ?thesis
        by (blast intro: extends_trans)
    next
      case Exception
      with Cons.prems Require e have "st' = st1" by simp
      with E [OF e] show ?thesis by simp
    qed
  next
    case ReplaceExports
    with Cons.prems
    have "runFactory n tab ident ds cmds (nextObj st) (st\<lparr>nextObj := nextObj st + 1\<rparr>) = Some (r, st')"
      by simp
    from Cons.IH [OF this] extends_alloc [of st] show ?thesis
      by (blast intro: extends_trans)
  next
    case Throw
    with Cons.prems show ?thesis by (simp add: extends_refl)
  qed
qed

lemma executeModule_cached:
  "executedModules st ident = Some obj \<Longrightarrow> executeModule (Suc n) tab ident st = Some (Normal obj, st)"
  by simp

lemma executeModule_unknown:
  "executedModules st ident = None \<Longrightarrow> tab ident = None \<Longrightarrow>
   executeModule (Suc n) tab ident st =
     Some (Exception, st\<lparr>nextObj := nextObj st + 1,
                          executedModules := (executedModules st)(ident \<mapsto> nextObj st)\<rparr>)"
  by (simp add: Let_def)

lemma executeModule_fresh:
  "executedModules st ident = None \<Longrightarrow> tab ident = Some (factory, ds) \<Longrightarrow>
   executeModule (Suc n) tab ident st =
     runFactory n tab ident ds factory (nextObj st)
       (st\<lparr>nextObj := nextObj st + 1,
           executedModules := (executedModules st)(ident \<mapsto> nextObj st),
           invoked := invoked st @ [ident]\<rparr>)"
  by (simp add: Let_def)

lemma extends_enter:
  "executedModules st k = None \<Longrightarrow>
   extends st (st\<lparr>nextObj := nextObj st + 1, executedModules := (executedModules st)(k \<mapsto> a),
                  invoked := invoked st @ [k]\<rparr>)"
  by (auto simp: extends_def map_le_def)

lemma executeModule_extends:
  "executeModule n tab ident st = Some (r, st') \<Longrightarrow> extends st st'"
proof (induction n arbitrary: ident st r st')
  case 0
  then show ?case by simp
next
  case (Suc n)
  show ?case
  proof (cases "executedModules st ident")
    case (Some obj)
    from Suc.prems show ?thesis
      unfolding executeModule_cached [OF Some] by (simp add: extends_refl)
  next
    case None
    show ?thesis
    proof (cases "tab ident")
      case None': None
      from Suc.prems show ?thesis
        unfolding executeModule_unknown [where tab = tab and st = st and ident = ident, OF None None'] using extends_cache [OF None] by auto
    next
      case (Some fd)
      obtain factory ds where fd: "tab ident = Some (factory, ds)" using Some by (cases fd) simp
      from Suc.prems
      have run: "runFactory n tab ident ds factory (nextObj st)
              (st\<lparr>nextObj := nextObj st + 1,
                  executedModules := (executedModules st)(ident \<mapsto> nextObj st),
                  invoked := invoked st @ [ident]\<rparr>) = Some (r, st')"
        unfolding executeModule_fresh [where tab = tab and st = st and ident = ident, OF None fd] .
      have "extends (st\<lparr>nextObj := nextObj st + 1,
                  executedModules := (executedModules st)(ident \<mapsto> nextObj st),
                  invoked := invoked st @ [ident]\<rparr>) st'"
        by (rule runFactory_extends [OF Suc.IH run])
      with extends_enter [OF None] show ?thesis by (rule extends_trans)
    qed
  qed
qed

text \<open>
  Rule induction for the loader: a property of all calls that return follows from its
  preservation by each line of \<^verbatim>\<open>executeModule\<close> and each action of a factory.
\<close>

lemma runFactory_rule:
  assumes E: "\<And>ident st r st'. executeModule n tab ident st = Some (r, st') \<Longrightarrow> PE ident st r st'"
    and fin: "\<And>ident ds exports st. PF ident ds [] exports st (Normal exports) st"
    and req: "\<And>ident ds path rest exports st obj st1 r st'.
        PE (depLookup ds path) st (Normal obj) st1 \<Longrightarrow>
        PF ident ds rest exports (st1\<lparr>required := required st1 @ [(ident, path, obj)]\<rparr>) r st' \<Longrightarrow>
        PF ident ds (Require path # rest) exports st r st'"
    and req_exc: "\<And>ident ds path rest exports st st1.
        PE (depLookup ds path) st Exception st1 \<Longrightarrow>
        PF ident ds (Require path # rest) exports st Exception st1"
    and repl: "\<And>ident ds rest exports st r st'.
        PF ident ds rest (nextObj st) (st\<lparr>nextObj := nextObj st + 1\<rparr>) r st' \<Longrightarrow>
        PF ident ds (ReplaceExports # rest) exports st r st'"
    and thr: "\<And>ident ds rest exports st. PF ident ds (Throw # rest) exports st Exception st"
  shows "runFactory n tab ident ds cmds exports st = Some (r, st') \<Longrightarrow>
         PF ident ds cmds exports st r st'"
proof (induction cmds arbitrary: exports st)
  case Nil
  then have "r = Normal exports" "st' = st" by simp_all
  with fin [of ident ds exports st] show ?case by simp
next
  case (Cons c cmds)
  show ?case
  proof (cases c)
    case (Require path)
    from Cons.prems Require obtain r1 st1 where
      e: "executeModule n tab (depLookup ds path) st = Some (r1, st1)"
      by (cases "executeModule n tab (depLookup ds path) st") auto
    show ?thesis
    proof (cases r1)
      case (Normal obj)
      with Cons.prems Require e
      have "runFactory n tab ident ds cmds exports
              (st1\<lparr>required := required st1 @ [(ident, path, obj)]\<rparr>) = Some (r, st')"
        by simp
      from req [OF E [OF e [unfolded Normal]] Cons.IH [OF this]] show ?thesis
        by (simp add: Require)
    next
      case Exception
      with Cons.prems Require e have "st' = st1" "r = Exception" by simp_all
      with req_exc [OF E [OF e [unfolded Exception]]] show ?thesis
        by (simp add: Require)
    qed
  next
    case ReplaceExports
    with Cons.prems
    have "runFactory n tab ident ds cmds (nextObj st) (st\<lparr>nextObj := nextObj st + 1\<rparr>) = Some (r, st')"
      by simp
    from repl [OF Cons.IH [OF this]] show ?thesis by (simp add: ReplaceExports)
  next
    case Throw
    with Cons.prems have "r = Exception" "st' = st" by simp_all
    with thr [of ident ds cmds exports st] show ?thesis by (simp add: Throw)
  qed
qed

lemma executeModule_rule:
  assumes run: "executeModule n tab ident st = Some (r, st')"
    and cached: "\<And>ident st obj. executedModules st ident = Some obj \<Longrightarrow>
        PE ident st (Normal obj) st"
    and unknown: "\<And>ident st. executedModules st ident = None \<Longrightarrow> tab ident = None \<Longrightarrow>
        PE ident st Exception
          (st\<lparr>nextObj := nextObj st + 1,
              executedModules := (executedModules st)(ident \<mapsto> nextObj st)\<rparr>)"
    and fresh: "\<And>ident st factory ds r st'.
        executedModules st ident = None \<Longrightarrow> tab ident = Some (factory, ds) \<Longrightarrow>
        PF ident ds factory (nextObj st)
          (st\<lparr>nextObj := nextObj st + 1,
              executedModules := (executedModules st)(ident \<mapsto> nextObj st),
              invoked := invoked st @ [ident]\<rparr>) r st' \<Longrightarrow>
        PE ident st r st'"
    and fin: "\<And>ident ds exports st. PF ident ds [] exports st (Normal exports) st"
    and req: "\<And>ident ds path rest exports st obj st1 r st'.
        PE (depLookup ds path) st (Normal obj) st1 \<Longrightarrow>
        PF ident ds rest exports (st1\<lparr>required := required st1 @ [(ident, path, obj)]\<rparr>) r st' \<Longrightarrow>
        PF ident ds (Require path # rest) exports st r st'"
    and req_exc: "\<And>ident ds path rest exports st st1.
        PE (depLookup ds path) st Exception st1 \<Longrightarrow>
        PF ident ds (Require path # rest) exports st Exception st1"
    and repl: "\<And>ident ds rest exports st r st'.
        PF ident ds rest (nextObj st) (st\<lparr>nextObj := nextObj st + 1\<rparr>) r st' \<Longrightarrow>
        PF ident ds (ReplaceExports # rest) exports st r st'"
    and thr: "\<And>ident ds rest exports st. PF ident ds (Throw # rest) exports st Exception st"
  shows "PE ident st r st'"
  using run
proof (induction n arbitrary: ident st r st')
  case 0
  then show ?case by simp
next
  case (Suc n)
  show ?case
  proof (cases "executedModules st ident")
    case (Some obj)
    from Suc.prems cached [OF Some] show ?thesis
      unfolding executeModule_cached [OF Some] by simp
  next
    case None
    show ?thesis
    proof (cases "tab ident")
      case None': None
      from Suc.prems unknown [OF None None'] show ?thesis
        unfolding executeModule_unknown [where tab = tab and st = st and ident = ident, OF None None']
        by auto
    next
      case (Some fd)
      obtain factory ds where fd: "tab ident = Some (factory, ds)" using Some by (cases fd) simp
      from Suc.prems
      have run: "runFactory n tab ident ds factory (nextObj st)
              (st\<lparr>nextObj := nextObj st + 1,
                  executedModules := (executedModules st)(ident \<mapsto> nextObj st),
                  invoked := invoked st @ [ident]\<rparr>) = Some (r, st')"
        unfolding executeModule_fresh [where tab = tab and st = st and ident = ident, OF None fd] .
      have "PF ident ds factory (nextObj st)
              (st\<lparr>nextObj := nextObj st + 1,
                  executedModules := (executedModules st)(ident \<mapsto> nextObj st),
                  invoked := invoked st @ [ident]\<rparr>) r st'"
        by (rule runFactory_rule [where PE = PE and PF = PF, OF Suc.IH fin req req_exc repl thr run])
      then show ?thesis by (rule fresh [OF None fd])
    qed
  qed
qed

lemma rt_inv_enter:
  assumes "rt_inv tab st" "executedModules st ident = None" "tab ident = Some fd"
  shows "rt_inv tab (st\<lparr>nextObj := nextObj st + 1,
            executedModules := (executedModules st)(ident \<mapsto> nextObj st),
            invoked := invoked st @ [ident]\<rparr>)"
proof -
  from assms(1) have d: "distinct (invoked st)"
    and s: "set (invoked st) = {k. executedModules st k \<noteq> None \<and> tab k \<noteq> None}"
    and o: "\<forall>k obj. executedModules st k = Some obj \<longrightarrow> obj < nextObj st"
    and r: "\<forall>(i, path, obj) \<in> set (required st).
           \<exists>factory ds. tab i = Some (factory, ds)
             \<and> executedModules st (depLookup ds path) \<noteq> None"
    by (simp_all add: rt_inv_def)
  from s assms(2) have "ident \<notin> set (invoked st)" by simp
  with d have 1: "distinct (invoked st @ [ident])" by simp
  have 2: "set (invoked st @ [ident])
      = {k. ((executedModules st)(ident \<mapsto> nextObj st)) k \<noteq> None \<and> tab k \<noteq> None}"
    using s assms(3) by auto
  have 3: "\<forall>k obj. ((executedModules st)(ident \<mapsto> nextObj st)) k = Some obj \<longrightarrow> obj < nextObj st + 1"
    using o by (auto simp: less_Suc_eq)
  have 4: "\<forall>(i, path, obj) \<in> set (required st).
           \<exists>factory ds. tab i = Some (factory, ds)
             \<and> ((executedModules st)(ident \<mapsto> nextObj st)) (depLookup ds path) \<noteq> None"
    using r by fastforce
  from 1 2 3 4 show ?thesis by (simp add: rt_inv_def)
qed

lemma rt_inv_unknown:
  assumes "rt_inv tab st" "executedModules st ident = None" "tab ident = None"
  shows "rt_inv tab (st\<lparr>nextObj := nextObj st + 1,
            executedModules := (executedModules st)(ident \<mapsto> nextObj st)\<rparr>)"
proof -
  from assms(1) have d: "distinct (invoked st)"
    and s: "set (invoked st) = {k. executedModules st k \<noteq> None \<and> tab k \<noteq> None}"
    and o: "\<forall>k obj. executedModules st k = Some obj \<longrightarrow> obj < nextObj st"
    and r: "\<forall>(i, path, obj) \<in> set (required st).
           \<exists>factory ds. tab i = Some (factory, ds)
             \<and> executedModules st (depLookup ds path) \<noteq> None"
    by (simp_all add: rt_inv_def)
  have 2: "set (invoked st)
      = {k. ((executedModules st)(ident \<mapsto> nextObj st)) k \<noteq> None \<and> tab k \<noteq> None}"
    using s assms(3) by auto
  have 3: "\<forall>k obj. ((executedModules st)(ident \<mapsto> nextObj st)) k = Some obj \<longrightarrow> obj < nextObj st + 1"
    using o by (auto simp: less_Suc_eq)
  have 4: "\<forall>(i, path, obj) \<in> set (required st).
           \<exists>factory ds. tab i = Some (factory, ds)
             \<and> ((executedModules st)(ident \<mapsto> nextObj st)) (depLookup ds path) \<noteq> None"
    using r by fastforce
  from d 2 3 4 show ?thesis by (simp add: rt_inv_def)
qed

lemma rt_inv_required:
  assumes "rt_inv tab st" "tab ident = Some (factory, ds)"
    "executedModules st (depLookup ds path) \<noteq> None"
  shows "rt_inv tab (st\<lparr>required := required st @ [(ident, path, obj)]\<rparr>)"
  using assms by (simp add: rt_inv_def)

lemma rt_inv_alloc:
  "rt_inv tab st \<Longrightarrow> rt_inv tab (st\<lparr>nextObj := nextObj st + 1\<rparr>)"
  by (auto simp: rt_inv_def less_Suc_eq)


lemma extends_cached:
  "extends st st' \<Longrightarrow> executedModules st k = Some a \<Longrightarrow> executedModules st' k = Some a"
  by (auto simp: extends_def map_le_def dom_def)

text \<open>What a call of \<^verbatim>\<open>executeModule\<close> that returns has done.\<close>

lemma executeModule_facts:
  assumes "executeModule n tab ident st = Some (r, st')"
  shows "extends st st'
     \<and> (case executedModules st ident of
           Some a \<Rightarrow> r = Normal a \<and> st' = st
         | None \<Rightarrow> executedModules st' ident = Some (nextObj st))
     \<and> (rt_inv tab st \<longrightarrow> rt_inv tab st')"
proof (rule executeModule_rule
    [where PE = "\<lambda>ident st r st'. extends st st'
       \<and> (case executedModules st ident of
             Some a \<Rightarrow> r = Normal a \<and> st' = st
           | None \<Rightarrow> executedModules st' ident = Some (nextObj st))
       \<and> (rt_inv tab st \<longrightarrow> rt_inv tab st')"
     and PF = "\<lambda>ident ds cmds exports st r st'. extends st st'
       \<and> (rt_inv tab st \<longrightarrow> (\<exists>factory. tab ident = Some (factory, ds)) \<longrightarrow> rt_inv tab st')",
     OF assms])
  fix ident and st :: rstate and obj
  assume "executedModules st ident = Some obj"
  then show "extends st st
     \<and> (case executedModules st ident of
           Some a \<Rightarrow> Normal obj = Normal a \<and> st = st
         | None \<Rightarrow> executedModules st ident = Some (nextObj st))
     \<and> (rt_inv tab st \<longrightarrow> rt_inv tab st)"
    by (simp add: extends_refl)
next
  fix ident and st :: rstate
  let ?st1 = "st\<lparr>nextObj := nextObj st + 1,
              executedModules := (executedModules st)(ident \<mapsto> nextObj st)\<rparr>"
  assume u: "executedModules st ident = None" and t: "tab ident = None"
  show "extends st ?st1
     \<and> (case executedModules st ident of
           Some a \<Rightarrow> Exception = Normal a \<and> ?st1 = st
         | None \<Rightarrow> executedModules ?st1 ident = Some (nextObj st))
     \<and> (rt_inv tab st \<longrightarrow> rt_inv tab ?st1)"
    using extends_cache [OF u] rt_inv_unknown [where tab = tab and st = st and ident = ident, OF _ u t] by (simp add: u)
next
  fix ident and st st' :: rstate and factory ds r
  let ?st1 = "st\<lparr>nextObj := nextObj st + 1,
              executedModules := (executedModules st)(ident \<mapsto> nextObj st),
              invoked := invoked st @ [ident]\<rparr>"
  assume u: "executedModules st ident = None" and t: "tab ident = Some (factory, ds)"
    and pf: "extends ?st1 st'
       \<and> (rt_inv tab ?st1 \<longrightarrow> (\<exists>factory. tab ident = Some (factory, ds)) \<longrightarrow> rt_inv tab st')"
  from pf have e1: "extends ?st1 st'" by simp
  have e: "extends st st'" by (rule extends_trans [OF extends_enter [OF u] e1])
  have c: "executedModules st' ident = Some (nextObj st)"
    by (rule extends_cached [OF e1]) simp
  have i: "rt_inv tab st'" if "rt_inv tab st"
    using pf rt_inv_enter [where tab = tab and st = st and ident = ident, OF that u t] t by blast
  from e c i show "extends st st'
     \<and> (case executedModules st ident of
           Some a \<Rightarrow> r = Normal a \<and> st' = st
         | None \<Rightarrow> executedModules st' ident = Some (nextObj st))
     \<and> (rt_inv tab st \<longrightarrow> rt_inv tab st')"
    by (simp add: u)
next
  fix ident :: "nat option" and ds :: "(string \<times> nat) list" and exports :: nat and st :: rstate
  show "extends st st \<and> (rt_inv tab st \<longrightarrow> (\<exists>factory. tab ident = Some (factory, ds)) \<longrightarrow> rt_inv tab st)"
    by (simp add: extends_refl)
next
  fix ident ds path rest and exports :: nat and st st1 st' :: rstate and obj r
  let ?st2 = "st1\<lparr>required := required st1 @ [(ident, path, obj)]\<rparr>"
  assume pe: "extends st st1
       \<and> (case executedModules st (depLookup ds path) of
             Some a \<Rightarrow> Normal obj = Normal a \<and> st1 = st
           | None \<Rightarrow> executedModules st1 (depLookup ds path) = Some (nextObj st))
       \<and> (rt_inv tab st \<longrightarrow> rt_inv tab st1)"
    and pf: "extends ?st2 st'
       \<and> (rt_inv tab ?st2 \<longrightarrow> (\<exists>factory. tab ident = Some (factory, ds)) \<longrightarrow> rt_inv tab st')"
  from pe have e1: "extends st st1" by simp
  from pf have e2: "extends ?st2 st'" by simp
  have e: "extends st st'"
    by (rule extends_trans [OF extends_trans [OF e1 extends_required] e2])
  from pe have c: "executedModules st1 (depLookup ds path) \<noteq> None"
    by (cases "executedModules st (depLookup ds path)") auto
  have i: "rt_inv tab st'" if a: "rt_inv tab st" and b: "\<exists>factory. tab ident = Some (factory, ds)"
  proof -
    from pe a have 1: "rt_inv tab st1" by simp
    from b obtain factory where f: "tab ident = Some (factory, ds)" ..
    have "rt_inv tab ?st2" by (rule rt_inv_required [OF 1 f c])
    with pf b show ?thesis by simp
  qed
  from e i show "extends st st'
     \<and> (rt_inv tab st \<longrightarrow> (\<exists>factory. tab ident = Some (factory, ds)) \<longrightarrow> rt_inv tab st')"
    by simp
next
  fix ident ds path and rest :: "action list" and exports :: nat and st st1 :: rstate
  assume pe: "extends st st1
       \<and> (case executedModules st (depLookup ds path) of
             Some a \<Rightarrow> Exception = Normal a \<and> st1 = st
           | None \<Rightarrow> executedModules st1 (depLookup ds path) = Some (nextObj st))
       \<and> (rt_inv tab st \<longrightarrow> rt_inv tab st1)"
  then show "extends st st1
     \<and> (rt_inv tab st \<longrightarrow> (\<exists>factory. tab ident = Some (factory, ds)) \<longrightarrow> rt_inv tab st1)"
    by simp
next
  fix ident ds and rest :: "action list" and exports :: nat and st st' :: rstate and r
  let ?st1 = "st\<lparr>nextObj := nextObj st + 1\<rparr>"
  assume pf: "extends ?st1 st'
       \<and> (rt_inv tab ?st1 \<longrightarrow> (\<exists>factory. tab ident = Some (factory, ds)) \<longrightarrow> rt_inv tab st')"
  from pf have e: "extends st st'"
    using extends_trans [OF extends_alloc [of st]] by simp
  from pf rt_inv_alloc [of tab st] e
  show "extends st st'
     \<and> (rt_inv tab st \<longrightarrow> (\<exists>factory. tab ident = Some (factory, ds)) \<longrightarrow> rt_inv tab st')"
    by blast
next
  fix ident :: "nat option" and ds :: "(string \<times> nat) list" and rest :: "action list"
    and exports :: nat and st :: rstate
  show "extends st st \<and> (rt_inv tab st \<longrightarrow> (\<exists>factory. tab ident = Some (factory, ds)) \<longrightarrow> rt_inv tab st)"
    by (simp add: extends_refl)
qed









text \<open>The object a factory leaves in \<^verbatim>\<open>module.exports\<close>.\<close>

lemma executeModule_result:
  assumes "executeModule n tab ident st = Some (r, st')"
  shows "extends st st'
     \<and> (\<forall>obj factory ds. r = Normal obj \<longrightarrow> executedModules st ident = None \<longrightarrow>
           tab ident = Some (factory, ds) \<longrightarrow>
           (if ReplaceExports \<in> set factory then nextObj st < obj else obj = nextObj st))"
proof (rule executeModule_rule
    [where PE = "\<lambda>ident st r st'. extends st st'
       \<and> (\<forall>obj factory ds. r = Normal obj \<longrightarrow> executedModules st ident = None \<longrightarrow>
             tab ident = Some (factory, ds) \<longrightarrow>
             (if ReplaceExports \<in> set factory then nextObj st < obj else obj = nextObj st))"
     and PF = "\<lambda>ident ds cmds exports st r st'. extends st st'
       \<and> (\<forall>obj. r = Normal obj \<longrightarrow>
             (if ReplaceExports \<in> set cmds then nextObj st \<le> obj else obj = exports))",
     OF assms])
  fix ident and st :: rstate and obj
  assume "executedModules st ident = Some obj"
  then show "extends st st
     \<and> (\<forall>obja factory ds. Normal obj = Normal obja \<longrightarrow> executedModules st ident = None \<longrightarrow>
           tab ident = Some (factory, ds) \<longrightarrow>
           (if ReplaceExports \<in> set factory then nextObj st < obja else obja = nextObj st))"
    by (simp add: extends_refl)
next
  fix ident and st :: rstate
  let ?st1 = "st\<lparr>nextObj := nextObj st + 1,
              executedModules := (executedModules st)(ident \<mapsto> nextObj st)\<rparr>"
  assume u: "executedModules st ident = None" and t: "tab ident = None"
  show "extends st ?st1
     \<and> (\<forall>obj factory ds. Exception = Normal obj \<longrightarrow> executedModules st ident = None \<longrightarrow>
           tab ident = Some (factory, ds) \<longrightarrow>
           (if ReplaceExports \<in> set factory then nextObj st < obj else obj = nextObj st))"
    using extends_cache [OF u] by simp
next
  fix ident and st st' :: rstate and factory ds r
  let ?st1 = "st\<lparr>nextObj := nextObj st + 1,
              executedModules := (executedModules st)(ident \<mapsto> nextObj st),
              invoked := invoked st @ [ident]\<rparr>"
  assume u: "executedModules st ident = None" and t: "tab ident = Some (factory, ds)"
    and pf: "extends ?st1 st'
       \<and> (\<forall>obj. r = Normal obj \<longrightarrow>
             (if ReplaceExports \<in> set factory then nextObj ?st1 \<le> obj else obj = nextObj st))"
  from pf have e1: "extends ?st1 st'" by simp
  have e: "extends st st'" by (rule extends_trans [OF extends_enter [OF u] e1])
  from pf have "\<forall>obj. r = Normal obj \<longrightarrow>
             (if ReplaceExports \<in> set factory then nextObj st < obj else obj = nextObj st)"
    by (auto split: if_splits)
  with e t show "extends st st'
     \<and> (\<forall>obj factory ds. r = Normal obj \<longrightarrow> executedModules st ident = None \<longrightarrow>
           tab ident = Some (factory, ds) \<longrightarrow>
           (if ReplaceExports \<in> set factory then nextObj st < obj else obj = nextObj st))"
    by simp
next
  fix ident :: "nat option" and ds :: "(string \<times> nat) list" and exports :: nat and st :: rstate
  show "extends st st
     \<and> (\<forall>obj. Normal exports = Normal obj \<longrightarrow>
           (if ReplaceExports \<in> set [] then nextObj st \<le> obj else obj = exports))"
    by (simp add: extends_refl)
next
  fix ident :: "nat option" and ds :: "(string \<times> nat) list" and path rest
    and exports :: nat and st st1 st' :: rstate and obj r
  let ?st2 = "st1\<lparr>required := required st1 @ [(ident, path, obj)]\<rparr>"
  assume pe: "extends st st1
       \<and> (\<forall>obja factory dsa. Normal obj = Normal obja \<longrightarrow>
             executedModules st (depLookup ds path) = None \<longrightarrow>
             tab (depLookup ds path) = Some (factory, dsa) \<longrightarrow>
             (if ReplaceExports \<in> set factory then nextObj st < obja else obja = nextObj st))"
    and pf: "extends ?st2 st'
       \<and> (\<forall>obj. r = Normal obj \<longrightarrow>
             (if ReplaceExports \<in> set rest then nextObj ?st2 \<le> obj else obj = exports))"
  from pe have e1: "extends st st1" by simp
  from pf have e2: "extends ?st2 st'" by simp
  have e: "extends st st'"
    by (rule extends_trans [OF extends_trans [OF e1 extends_required] e2])
  from e1 have n: "nextObj st \<le> nextObj st1" by (simp add: extends_def)
  from pf n have "\<forall>obj. r = Normal obj \<longrightarrow>
             (if ReplaceExports \<in> set (Require path # rest) then nextObj st \<le> obj else obj = exports)"
    by (auto split: if_splits)
  with e show "extends st st'
     \<and> (\<forall>obj. r = Normal obj \<longrightarrow>
           (if ReplaceExports \<in> set (Require path # rest) then nextObj st \<le> obj else obj = exports))"
    by simp
next
  fix ident :: "nat option" and ds :: "(string \<times> nat) list" and path
    and rest :: "action list" and exports :: nat and st st1 :: rstate
  assume pe: "extends st st1
       \<and> (\<forall>obj factory dsa. Exception = Normal obj \<longrightarrow>
             executedModules st (depLookup ds path) = None \<longrightarrow>
             tab (depLookup ds path) = Some (factory, dsa) \<longrightarrow>
             (if ReplaceExports \<in> set factory then nextObj st < obj else obj = nextObj st))"
  then show "extends st st1
     \<and> (\<forall>obj. Exception = Normal obj \<longrightarrow>
           (if ReplaceExports \<in> set (Require path # rest) then nextObj st \<le> obj else obj = exports))"
    by simp
next
  fix ident :: "nat option" and ds :: "(string \<times> nat) list" and rest :: "action list"
    and exports :: nat and st st' :: rstate and r
  let ?st1 = "st\<lparr>nextObj := nextObj st + 1\<rparr>"
  assume pf: "extends ?st1 st'
       \<and> (\<forall>obj. r = Normal obj \<longrightarrow>
             (if ReplaceExports \<in> set rest then nextObj ?st1 \<le> obj else obj = nextObj st))"
  from pf have e: "extends st st'"
    using extends_trans [OF extends_alloc [of st]] by simp
  from pf have "\<forall>obj. r = Normal obj \<longrightarrow>
           (if ReplaceExports \<in> set (ReplaceExports # rest) then nextObj st \<le> obj else obj = exports)"
    by (auto split: if_splits)
  with e show "extends st st'
     \<and> (\<forall>obj. r = Normal obj \<longrightarrow>
           (if ReplaceExports \<in> set (ReplaceExports # rest) then nextObj st \<le> obj else obj = exports))"
    by simp
next
  fix ident :: "nat option" and ds :: "(string \<times> nat) list" and rest :: "action list"
    and exports :: nat and st :: rstate
  show "extends st st
     \<and> (\<forall>obj. Exception = Normal obj \<longrightarrow>
           (if ReplaceExports \<in> set (Throw # rest) then nextObj st \<le> obj else obj = exports))"
    by (simp add: extends_refl)
qed







section \<open>Running a bundle\<close>





text \<open>
  Claim C9.  Take an identity that is not cached and has a module, and a call of
  \<^verbatim>\<open>executeModule\<close> for it that returns the object \<open>obj\<close>.  Its factory ran with the
  fresh object \<open>nextObj st\<close> as \<^verbatim>\<open>exports\<close>, in a state that had it in the cache
  already, and this object is what the cache holds afterwards.  When the factory
  assigns a new object to \<^verbatim>\<open>module.exports\<close>, the call returns that later object, not
  the cached one; otherwise it returns the cached one.  Every later call for the same
  identity, right away or after any other calls, returns the cached, original object.
\<close>

theorem replaced_exports_not_cached:
  assumes "executedModules st ident = None"
    and "tab ident = Some (factory, ds)"
    and "executeModule n tab ident st = Some (Normal obj, st')"
  shows "(\<exists>n'. n = Suc n'
           \<and> runFactory n' tab ident ds factory (nextObj st)
               (st\<lparr>nextObj := nextObj st + 1,
                   executedModules := (executedModules st)(ident \<mapsto> nextObj st),
                   invoked := invoked st @ [ident]\<rparr>) = Some (Normal obj, st'))
     \<and> executedModules st' ident = Some (nextObj st)
     \<and> (ReplaceExports \<in> set factory \<longrightarrow> nextObj st < obj)
     \<and> (ReplaceExports \<notin> set factory \<longrightarrow> obj = nextObj st)
     \<and> (\<forall>m. executeModule (Suc m) tab ident st' = Some (Normal (nextObj st), st'))
     \<and> (\<forall>m k r st''. executeModule m tab k st' = Some (r, st'') \<longrightarrow>
           executedModules st'' ident = Some (nextObj st)
           \<and> (\<forall>j. executeModule (Suc j) tab ident st'' = Some (Normal (nextObj st), st'')))"
proof -
  from assms(3) obtain n' where n: "n = Suc n'" by (cases n) auto
  have 1: "runFactory n' tab ident ds factory (nextObj st)
               (st\<lparr>nextObj := nextObj st + 1,
                   executedModules := (executedModules st)(ident \<mapsto> nextObj st),
                   invoked := invoked st @ [ident]\<rparr>) = Some (Normal obj, st')"
    using assms(3) unfolding n
      executeModule_fresh [where tab = tab and st = st and ident = ident, OF assms(1,2)] .
  from executeModule_facts [OF assms(3)] assms(1)
  have 2: "executedModules st' ident = Some (nextObj st)" by simp
  from executeModule_result [OF assms(3)] assms(1,2)
  have 3: "if ReplaceExports \<in> set factory then nextObj st < obj else obj = nextObj st"
    by blast
  have 5: "executeModule (Suc m) tab ident st' = Some (Normal (nextObj st), st')" for m
    by (rule executeModule_cached [OF 2])
  have 6: "executedModules st'' ident = Some (nextObj st)
           \<and> (\<forall>j. executeModule (Suc j) tab ident st'' = Some (Normal (nextObj st), st''))"
    if "executeModule m tab k st' = Some (r, st'')" for m k r st''
  proof -
    from executeModule_extends [OF that] 2 have "executedModules st'' ident = Some (nextObj st)"
      by (rule extends_cached)
    with executeModule_cached [OF this] show ?thesis by blast
  qed
  from n 1 2 3 5 6 show ?thesis by (auto split: if_splits)
qed

theorem replaced_exports_not_cached_witness:
  "(\<exists>st'. executeModule 2 (tableOf replaceSem replaceBundle) (Some 1) initRuntime
             = Some (Normal 1, st')
      \<and> executedModules st' (Some 1) = Some 0
      \<and> executeModule 1 (tableOf replaceSem replaceBundle) (Some 1) st' = Some (Normal 0, st'))
   \<and> requiredOf (runBundle replaceSem replaceBundle 3)
        = Some [(Some 0, ''./b'', 2), (Some 0, ''./b'', 1)]"
proof -
  have h1: "executedModules initRuntime (Some 1) = None"
    by (simp add: initRuntime_def)
  have h2: "tableOf replaceSem replaceBundle (Some 1) = Some ([ReplaceExports], [])"
    by code_simp
  have "completionOf (executeModule 2 (tableOf replaceSem replaceBundle) (Some 1) initRuntime)
          = Some (Normal 1)"
    by code_simp
  then obtain st' where h3:
    "executeModule 2 (tableOf replaceSem replaceBundle) (Some 1) initRuntime = Some (Normal 1, st')"
    by (auto simp: completionOf_def)
  note R = replaced_exports_not_cached [OF h1 h2 h3]
  note c1 = conjunct1 and c2 = conjunct2
  have n0: "nextObj initRuntime = 0" by (simp add: initRuntime_def)
  have a: "executedModules st' (Some 1) = Some 0"
    using R [THEN c2, THEN c1] by (simp add: n0)
  have b: "executeModule 1 (tableOf replaceSem replaceBundle) (Some 1) st' = Some (Normal 0, st')"
    using R [THEN c2, THEN c2, THEN c2, THEN c2, THEN c1, rule_format, of 0] by (simp add: n0)
  have c: "requiredOf (runBundle replaceSem replaceBundle 3)
        = Some [(Some 0, ''./b'', 2), (Some 0, ''./b'', 1)]"
    by code_simp
  from h3 a b c show ?thesis by blast
qed


end
